theory Spec2Isabelle
  imports Main "HOL-Library.Word" "HOL-Library.Signed_Division"
begin

unbundle bit_operations_syntax

section \<open>aioblkcopy: the dual-queue asynchronous block copier\<close>

text \<open>
  The development follows \<^verbatim>\<open>src/aioblkcopy.c\<close> and \<^verbatim>\<open>src/aioblkcopy.h\<close>.
  The whole program is the function \<^verbatim>\<open>main\<close>; its local variables become the fields of
  a state record, each loop becomes a recursive function, and every call into libc
  (\<^verbatim>\<open>aio_error\<close>, \<^verbatim>\<open>aio_return\<close>, \<^verbatim>\<open>posix_memalign\<close>, \<^verbatim>\<open>aio_read\<close>,
  \<^verbatim>\<open>aio_write\<close>, \<^verbatim>\<open>stat\<close>, \<^verbatim>\<open>strtoul\<close>) is answered by an explicit environment.

  Integer types (LP64 Linux): \<^verbatim>\<open>size_t\<close> and \<^verbatim>\<open>off_t\<close> are 64-bit words with
  wrap-around; pointers are 64-bit addresses with \<^verbatim>\<open>NULL\<close> = 0. The request numbers are
  \<^verbatim>\<open>long long\<close> counters that are only ever incremented from 0 and are modelled by
  \<open>int\<close>; \<^verbatim>\<open>int\<close> variables (\<^verbatim>\<open>retcode\<close>, \<^verbatim>\<open>blksize\<close>, the queue counters) are
  modelled by \<open>int\<close> too, and each conversion of such a value to \<^verbatim>\<open>size_t\<close> is written
  \<open>word_of_int\<close>, which is the conversion C performs (reduction modulo \<open>2 ^ 64\<close>).
\<close>

subsection \<open>Constants of the header and of errno.h\<close>

definition EXIT_SUCCESS :: int where "EXIT_SUCCESS = 0"
definition EXIT_FAILURE :: int where "EXIT_FAILURE = 1"
definition EXIT_USAGE :: int where "EXIT_USAGE = 1"

definition ENOENT :: int where "ENOENT = 2"
definition ERANGE :: int where "ERANGE = 34"
definition EFBIG :: int where "EFBIG = 27"
definition EINPROGRESS :: int where "EINPROGRESS = 115"
definition ECANCELED :: int where "ECANCELED = 125"

text \<open>\<^verbatim>\<open>QUEITEM_FREE\<close> = 0, \<^verbatim>\<open>QUEITEM_READY\<close> = 1, \<^verbatim>\<open>QUEITEM_INPROGRESS\<close> = 2: the
  only values the program ever stores in a \<^verbatim>\<open>status\<close> field.\<close>

datatype qstatus = QUEITEM_FREE | QUEITEM_READY | QUEITEM_INPROGRESS

type_synonym addr = "64 word"

definition NULL :: addr where "NULL = 0"

subsection \<open>The block-size option (lines 259-321)\<close>

text \<open>\<^verbatim>\<open>strtoul\<close> with base 10, after the C standard: leading white space is skipped, a
  sign is accepted, the longest run of decimal digits is converted. Without any digit the
  result is 0 and the end pointer is the start of the string. A value that does not fit
  gives \<^verbatim>\<open>ULONG_MAX\<close> and \<^verbatim>\<open>ERANGE\<close>; a minus sign negates the value as an
  \<^verbatim>\<open>unsigned long\<close>. The result is the value, the rest of the string from the end
  pointer on, and the value left in \<^verbatim>\<open>errno\<close> (which the program has set to 0).\<close>

definition isspace :: "char \<Rightarrow> bool" where
  "isspace c \<longleftrightarrow> of_char c \<in> {32 :: nat, 9, 10, 11, 12, 13}"

definition isdigit :: "char \<Rightarrow> bool" where
  "isdigit c \<longleftrightarrow> 48 \<le> (of_char c :: nat) \<and> (of_char c :: nat) \<le> 57"

fun digits :: "int \<Rightarrow> string \<Rightarrow> int \<times> string" where
  "digits acc [] = (acc, [])"
| "digits acc (c # cs) =
     (if isdigit c then digits (10 * acc + (of_char c - 48)) cs else (acc, c # cs))"

definition strtoul :: "string \<Rightarrow> 64 word \<times> string \<times> int" where
  "strtoul nptr =
     (let s1 = dropWhile isspace nptr;
          neg = (s1 \<noteq> [] \<and> hd s1 = CHR ''-'');
          s2 = (if s1 \<noteq> [] \<and> (hd s1 = CHR ''-'' \<or> hd s1 = CHR ''+'') then tl s1 else s1)
      in if s2 = [] \<or> \<not> isdigit (hd s2) then (0, nptr, 0)
         else
           (let (n, rest) = digits 0 s2
            in if 18446744073709551616 \<le> n then (- 1, rest, ERANGE)
               else (if neg then - word_of_int n else word_of_int n, rest, 0)))"

text \<open>The \<^verbatim>\<open>case 'b'\<close> of the option loop. \<open>Inl c\<close> is \<^verbatim>\<open>exit(c)\<close>, \<open>Inr b\<close> is the
  value stored in \<^verbatim>\<open>globalparams.blksize\<close>. The variable \<^verbatim>\<open>tint\<close> is a
  \<^verbatim>\<open>long long\<close>: it holds the bits that \<^verbatim>\<open>strtoul\<close> returned, is multiplied in 64
  bits, is read as a signed number by \<^verbatim>\<open>%\<close> (which truncates towards zero, \<open>smod\<close>)
  and by \<^verbatim>\<open>>\<close>, and is cut to the 32 bits of an \<^verbatim>\<open>int\<close> by the final assignment.\<close>

definition parse_blksize :: "string \<Rightarrow> int + int" where
  "parse_blksize optarg =
     (let (v, bsuffix, errno) = strtoul optarg
      in if errno \<noteq> 0 then Inl EXIT_FAILURE
         else
           (let scaled =
                  (if bsuffix = [] then Inr v
                   else if tl bsuffix = [] then
                     (if hd bsuffix = CHR ''K'' \<or> hd bsuffix = CHR ''k'' then Inr (v * 1024)
                      else if hd bsuffix = CHR ''M'' \<or> hd bsuffix = CHR ''m''
                      then Inr (v * 1024 * 1024)
                      else Inl EXIT_USAGE)
                   else Inl EXIT_USAGE)
            in case scaled of
                 Inl c \<Rightarrow> Inl c
               | Inr tint \<Rightarrow>
                   if sint tint smod 512 \<noteq> 0 then Inl EXIT_USAGE
                   else if 1024 * 1024 * 16 < sint tint then Inl EXIT_USAGE
                   else Inr (sint (ucast tint :: 32 word))))"

subsection \<open>Seekability of the two sides (lines 338-415)\<close>

text \<open>The file-type test of \<^verbatim>\<open>sys/stat.h\<close> on the \<^verbatim>\<open>st_mode\<close> field.\<close>

definition S_IFMT :: "32 word" where "S_IFMT = 0xF000"
definition S_IFREG :: "32 word" where "S_IFREG = 0x8000"
definition S_IFBLK :: "32 word" where "S_IFBLK = 0x6000"

definition S_ISREG :: "32 word \<Rightarrow> bool" where "S_ISREG m \<longleftrightarrow> m AND S_IFMT = S_IFREG"
definition S_ISBLK :: "32 word \<Rightarrow> bool" where "S_ISBLK m \<longleftrightarrow> m AND S_IFMT = S_IFBLK"

text \<open>The parameters fixed before the main loop starts.\<close>

record params =
  blksize :: int
  imaxqsize :: nat
  omaxqsize :: nat
  iseekable :: bool
  oseekable :: bool

text \<open>\<open>stat\<close> answers the two calls of \<^verbatim>\<open>stat()\<close>: \<open>Inr m\<close> is success with
  \<^verbatim>\<open>st_mode\<close> = \<open>m\<close> written to the buffer, \<open>Inl e\<close> is failure with
  \<^verbatim>\<open>errno\<close> = \<open>e\<close>, which leaves the buffer as it was. Both calls write to the one
  local \<^verbatim>\<open>statdata\<close>, which is not initialised: \<open>statdata0\<close> is whatever it holds when
  \<^verbatim>\<open>main\<close> starts. A file name that was not given is \<open>None\<close>. The result is the
  classification of both sides with the queue sizes, or the exit status of
  \<^verbatim>\<open>CUSTOMERROR\<close>.\<close>

definition startup ::
  "(string \<Rightarrow> int + 32 word) \<Rightarrow> 32 word \<Rightarrow> string option \<Rightarrow> string option \<Rightarrow> int \<Rightarrow> nat \<Rightarrow>
   int + params" where
  "startup stat statdata0 inputfile outputfile bs maxqsize =
     (case (case inputfile of
              Some path \<Rightarrow>
                (case stat path of
                   Inl errno \<Rightarrow> Inl EXIT_FAILURE
                 | Inr m \<Rightarrow>
                     if \<not> (S_ISREG m \<or> S_ISBLK m) then Inr (m, False, 1)
                     else Inr (m, True, maxqsize))
            | None \<Rightarrow> Inr (statdata0, False, 1)) of
        Inl c \<Rightarrow> Inl c
      | Inr (statdata, iseek, imax) \<Rightarrow>
          (case outputfile of
             Some path \<Rightarrow>
               (case (case stat path of
                        Inl errno \<Rightarrow> if errno \<noteq> ENOENT then Inl EXIT_FAILURE else Inr statdata
                      | Inr m \<Rightarrow> Inr m) of
                  Inl c \<Rightarrow> Inl c
                | Inr statdata' \<Rightarrow>
                    if \<not> (S_ISREG statdata' \<or> S_ISBLK statdata')
                    then Inr \<lparr>blksize = bs, imaxqsize = imax, omaxqsize = 1,
                              iseekable = iseek, oseekable = False\<rparr>
                    else Inr \<lparr>blksize = bs, imaxqsize = imax, omaxqsize = maxqsize,
                              iseekable = iseek, oseekable = True\<rparr>)
           | None \<Rightarrow>
               Inr \<lparr>blksize = bs, imaxqsize = imax, omaxqsize = 1,
                    iseekable = iseek, oseekable = False\<rparr>))"

subsection \<open>The control block and the queue item\<close>

text \<open>The fields of \<^verbatim>\<open>struct aiocb\<close> that the program sets. The three
  \<^verbatim>\<open>aio_sigevent\<close> fields receive the same constants at every submission and are left
  out.\<close>

record aiocb =
  aio_fildes :: int
  aio_reqprio :: int
  aio_buf :: addr
  aio_offset :: "64 word"
  aio_nbytes :: "64 word"

record blkqueitem =
  rqnum :: int
  fd :: int
  status :: qstatus
  retcode :: int
  buffer :: addr
  fdoffset :: "64 word"
  readyb :: "64 word"
  aiodata :: aiocb


text \<open>A write handed to \<^verbatim>\<open>aio_write\<close>: the control block as submitted, the request
  number it was given, and the request number of the read whose buffer it carries.\<close>

record wsubmit =
  w_rqnum :: int
  w_source :: int
  w_cb :: aiocb

text \<open>The locals of \<^verbatim>\<open>main\<close> that live across the main loop, together with four
  logs: the control blocks accepted by \<^verbatim>\<open>aio_read\<close>, the blocks whose read is
  complete, the writes accepted by \<^verbatim>\<open>aio_write\<close>, and the pointers passed to
  \<^verbatim>\<open>free\<close>, each in the order of the events. An entry of \<open>reads_done\<close> is made where
  an input slot becomes \<^verbatim>\<open>QUEITEM_READY\<close> (lines 591 and 643): the request number of
  the read, the address of its buffer and the number of bytes in it (\<^verbatim>\<open>readyb\<close>).\<close>

record state =
  ique :: "blkqueitem list"
  oque :: "blkqueitem list"
  irqnum :: int
  orqnum :: int
  ioff :: "64 word"
  ooff :: "64 word"
  iqsize :: int
  oqsize :: int
  eof :: bool
  aio_reads :: "aiocb list"
  reads_done :: "(int \<times> addr \<times> 64 word) list"
  aio_writes :: "wsubmit list"
  frees :: "addr list"

text \<open>What libc answers during one iteration of the main loop. In one iteration every
  slot is probed at most once and takes part in at most one submission, so each answer is
  indexed by the slot.\<close>

record env =
  aio_error_i :: "nat \<Rightarrow> int"
  aio_return_i :: "nat \<Rightarrow> int"
  posix_memalign :: "nat \<Rightarrow> int \<times> addr"
  aio_read :: "nat \<Rightarrow> int"
  aio_error_o :: "nat \<Rightarrow> int"
  aio_return_o :: "nat \<Rightarrow> int"
  aio_write :: "nat \<Rightarrow> int"

text \<open>A step either goes on with a new state or ends the process: \<open>Inl (c, s)\<close> is
  \<^verbatim>\<open>exit(c)\<close> (through \<^verbatim>\<open>CUSTOMERROR\<close> or directly) reached in state \<open>s\<close>.\<close>

type_synonym 'a result = "(int \<times> state) + 'a"

subsection \<open>Pass over the input queue (lines 561-744)\<close>

text \<open>Lines 677-683: the slot goes back to \<^verbatim>\<open>QUEITEM_FREE\<close>, its buffer is freed and
  the pointer cleared.\<close>

definition release_input :: "nat \<Rightarrow> state \<Rightarrow> state" where
  "release_input i s =
     (let q = ique s ! i in
      s\<lparr>ique := (ique s)[i := q\<lparr>status := QUEITEM_FREE, buffer := NULL\<rparr>],
        frees := frees s @ [buffer q],
        iqsize := iqsize s - 1\<rparr>)"

text \<open>Lines 606-641: the block is not complete yet, read the rest of it.\<close>

definition resubmit_read :: "params \<Rightarrow> env \<Rightarrow> nat \<Rightarrow> state \<Rightarrow> state result" where
  "resubmit_read p e i s =
     (let q = ique s ! i;
          cb = (aiodata q)\<lparr>aio_fildes := fd q, aio_reqprio := 0,
                 aio_buf := buffer q + readyb q,
                 aio_offset := (if iseekable p then fdoffset q + readyb q else 0),
                 aio_nbytes := word_of_int (blksize p) - readyb q\<rparr>;
          s' = s\<lparr>ique := (ique s)[i := q\<lparr>aiodata := cb\<rparr>]\<rparr>
      in if aio_read e i = - 1 then Inl (EXIT_FAILURE, s')
         else Inr (s'\<lparr>aio_reads := aio_reads s' @ [cb]\<rparr>))"

text \<open>Lines 575-651: \<^verbatim>\<open>aio_error\<close> returned 0.\<close>

definition read_completed :: "params \<Rightarrow> env \<Rightarrow> nat \<Rightarrow> state \<Rightarrow> state result" where
  "read_completed p e i s =
     (let q = (ique s ! i)\<lparr>retcode := aio_return_i e i\<rparr>;
          s1 = s\<lparr>ique := (ique s)[i := q]\<rparr>
      in if retcode q = 0 then
           (let s2 = s1\<lparr>eof := True\<rparr>
            in if readyb q \<noteq> 0
               then Inr (s2\<lparr>ique := (ique s2)[i := q\<lparr>status := QUEITEM_READY\<rparr>],
                            reads_done := reads_done s2 @ [(rqnum q, buffer q, readyb q)]\<rparr>)
               else Inr (release_input i s2))
         else
           (let q' = q\<lparr>readyb := readyb q + word_of_int (retcode q)\<rparr>;
                s2 = s1\<lparr>ique := (ique s1)[i := q']\<rparr>
            in if readyb q' \<noteq> word_of_int (blksize p) then resubmit_read p e i s2
               else Inr (s2\<lparr>ique := (ique s2)[i := q'\<lparr>status := QUEITEM_READY\<rparr>],
                            reads_done := reads_done s2 @ [(rqnum q', buffer q', readyb q')]\<rparr>)))"

text \<open>Lines 691-734: a free slot takes the next block of the input.\<close>

definition submit_read :: "params \<Rightarrow> env \<Rightarrow> nat \<Rightarrow> state \<Rightarrow> state result" where
  "submit_read p e i s =
     (let q = ique s ! i; (rc, a) = posix_memalign e i
      in if rc \<noteq> 0
         then Inl (EXIT_FAILURE, s\<lparr>ique := (ique s)[i := q\<lparr>retcode := rc\<rparr>]\<rparr>)
         else
           (let off = (if iseekable p then ioff s else 0);
                cb = (aiodata q)\<lparr>aio_fildes := fd q, aio_reqprio := 0, aio_buf := a,
                       aio_offset := off, aio_nbytes := word_of_int (blksize p)\<rparr>;
                q' = q\<lparr>rqnum := irqnum s + 1, status := QUEITEM_INPROGRESS,
                       retcode := EINPROGRESS, buffer := a, fdoffset := off,
                       readyb := 0, aiodata := cb\<rparr>;
                s' = s\<lparr>ique := (ique s)[i := q'], irqnum := irqnum s + 1\<rparr>
            in if aio_read e i = - 1 then Inl (EXIT_FAILURE, s')
               else Inr (s'\<lparr>ioff := ioff s + word_of_int (blksize p),
                             iqsize := iqsize s + 1,
                             aio_reads := aio_reads s @ [cb]\<rparr>)))"

text \<open>The body of the \<^verbatim>\<open>for\<close> loop of lines 561-744 for slot \<open>i\<close>.\<close>

definition input_slot :: "params \<Rightarrow> env \<Rightarrow> nat \<Rightarrow> state \<Rightarrow> state result" where
  "input_slot p e i s =
     (if status (ique s ! i) = QUEITEM_READY then Inr s
      else if status (ique s ! i) = QUEITEM_INPROGRESS then
        (let rc = aio_error_i e i;
             s1 = s\<lparr>ique := (ique s)[i := (ique s ! i)\<lparr>retcode := rc\<rparr>]\<rparr>
         in if rc = 0 then read_completed p e i s1
            else if rc = EINPROGRESS then Inr s1
            else if rc = ECANCELED then
              Inr (release_input i
                (s1\<lparr>ique := (ique s1)[i := (ique s1 ! i)\<lparr>retcode := aio_return_i e i\<rparr>]\<rparr>))
            else Inl (EXIT_FAILURE, s1))
      else if eof s then Inr s
      else submit_read p e i s)"

text \<open>A \<^verbatim>\<open>for\<close> loop over slot indices that stops when the process exits.\<close>

fun for_slots :: "(nat \<Rightarrow> 'a \<Rightarrow> 'a result) \<Rightarrow> nat list \<Rightarrow> 'a \<Rightarrow> 'a result" where
  "for_slots body [] s = Inr s"
| "for_slots body (i # is) s =
     (case body i s of Inl x \<Rightarrow> Inl x | Inr s' \<Rightarrow> for_slots body is s')"

definition input_pass :: "params \<Rightarrow> env \<Rightarrow> state \<Rightarrow> state result" where
  "input_pass p e s = for_slots (input_slot p e) [0..<imaxqsize p] s"

subsection \<open>Pass over the output queue (lines 751-898)\<close>

text \<open>Lines 809-815.\<close>

definition release_output :: "nat \<Rightarrow> state \<Rightarrow> state" where
  "release_output i s =
     (let q = oque s ! i in
      s\<lparr>oque := (oque s)[i := q\<lparr>status := QUEITEM_FREE, buffer := NULL\<rparr>],
        frees := frees s @ [buffer q],
        oqsize := oqsize s - 1\<rparr>)"

text \<open>Lines 755-818: an output slot whose write is in flight is probed.\<close>

definition output_probe :: "env \<Rightarrow> nat \<Rightarrow> state \<Rightarrow> state result" where
  "output_probe e i s =
     (let rc = aio_error_o e i;
          s1 = s\<lparr>oque := (oque s)[i := (oque s ! i)\<lparr>retcode := rc\<rparr>]\<rparr>
      in if rc = 0 then
           (let rc' = aio_return_o e i;
                s2 = s1\<lparr>oque := (oque s1)[i := (oque s1 ! i)\<lparr>retcode := rc'\<rparr>]\<rparr>
            in Inr (release_output i (if rc' = 0 then s2\<lparr>eof := True\<rparr> else s2)))
         else if rc = EINPROGRESS then Inr s1
         else if rc = ECANCELED then Inr (release_output i s1)
         else if rc = EFBIG then Inr (release_output i (s1\<lparr>eof := True\<rparr>))
         else Inl (EXIT_FAILURE, s1))"

text \<open>Lines 838-877: input slot \<open>j\<close> is \<^verbatim>\<open>QUEITEM_READY\<close> and output slot \<open>i\<close> is not
  in progress. When the output cannot seek and the block is not the next one in read
  order, nothing happens; otherwise the buffer goes to the output slot and the write is
  submitted.\<close>

definition handoff :: "params \<Rightarrow> env \<Rightarrow> nat \<Rightarrow> nat \<Rightarrow> state \<Rightarrow> state result" where
  "handoff p e i j s =
     (let qi = ique s ! j; qo = oque s ! i
      in if \<not> oseekable p \<and> rqnum qi \<noteq> orqnum s + 1 then Inr s
         else
           (let off = (if \<not> iseekable p then ooff s else fdoffset qi);
                cb = (aiodata qo)\<lparr>aio_nbytes := readyb qi, aio_fildes := fd qo,
                       aio_buf := buffer qi, aio_offset := off, aio_reqprio := 0\<rparr>;
                qo' = qo\<lparr>status := QUEITEM_INPROGRESS, rqnum := orqnum s + 1,
                        buffer := buffer qi, fdoffset := off, aiodata := cb\<rparr>;
                s1 = s\<lparr>oque := (oque s)[i := qo'], orqnum := orqnum s + 1\<rparr>
            in if aio_write e i = - 1 then Inl (EXIT_FAILURE, s1)
               else
                 Inr (s1\<lparr>oqsize := oqsize s + 1,
                          ooff := ooff s + readyb qi,
                          aio_writes := aio_writes s @
                            [\<lparr>w_rqnum = orqnum s + 1, w_source = rqnum qi, w_cb = cb\<rparr>],
                          ique := (ique s)[j := qi\<lparr>aiodata := (aiodata qi)\<lparr>aio_buf := NULL\<rparr>,
                                                   status := QUEITEM_FREE\<rparr>],
                          iqsize := iqsize s - 1\<rparr>)))"

text \<open>Lines 824-893: the \<^verbatim>\<open>while\<close> loop that looks for a ready input slot, starting
  at the cursor \<open>j\<close>. The cursor is returned with the state: it is shared by all output
  slots of one pass.\<close>

function match_loop :: "params \<Rightarrow> env \<Rightarrow> nat \<Rightarrow> nat \<Rightarrow> state \<Rightarrow> (nat \<times> state) result" where
  "match_loop p e i j s =
     (if j < imaxqsize p then
        (case (if status (ique s ! j) = QUEITEM_READY then handoff p e i j s else Inr s) of
           Inl x \<Rightarrow> Inl x
         | Inr s' \<Rightarrow>
             if status (oque s' ! i) = QUEITEM_INPROGRESS then Inr (j + 1, s')
             else match_loop p e i (j + 1) s')
      else Inr (j, s))"
  by pat_completeness auto
termination
  by (relation "measure (\<lambda>(p, e, i, j, s). imaxqsize p - j)") auto

text \<open>The body of the \<^verbatim>\<open>for\<close> loop of lines 753-898 for output slot \<open>i\<close>.\<close>

definition output_slot :: "params \<Rightarrow> env \<Rightarrow> nat \<Rightarrow> nat \<times> state \<Rightarrow> (nat \<times> state) result" where
  "output_slot p e i js =
     (case js of (j, s) \<Rightarrow>
        if status (oque s ! i) = QUEITEM_INPROGRESS then
          (case output_probe e i s of Inl x \<Rightarrow> Inl x | Inr s' \<Rightarrow> Inr (j, s'))
        else match_loop p e i j s)"

definition output_pass :: "params \<Rightarrow> env \<Rightarrow> state \<Rightarrow> state result" where
  "output_pass p e s =
     (case for_slots (output_slot p e) [0..<omaxqsize p] (0, s) of
        Inl x \<Rightarrow> Inl x
      | Inr (j, s') \<Rightarrow> Inr s')"

subsection \<open>The main loop (lines 555-929) and the end of \<^verbatim>\<open>main\<close>\<close>

text \<open>One iteration up to the test of line 904.\<close>

definition scan :: "params \<Rightarrow> env \<Rightarrow> state \<Rightarrow> state result" where
  "scan p e s =
     (case input_pass p e s of Inl x \<Rightarrow> Inl x | Inr s' \<Rightarrow> output_pass p e s')"

text \<open>Line 904.\<close>

definition all_done :: "state \<Rightarrow> bool" where
  "all_done s \<longleftrightarrow> iqsize s = 0 \<and> oqsize s = 0 \<and> eof s"

text \<open>The loop is driven by the list of environments, one per iteration. It ends in one
  of three ways: the process exits inside an iteration, the loop is left through the
  \<^verbatim>\<open>break\<close> of line 904, or the listed iterations are used up and the program sits in
  \<^verbatim>\<open>select\<close>.\<close>

datatype loop_end = Aborted int state | Left state | Blocked state

fun main_loop :: "params \<Rightarrow> env list \<Rightarrow> state \<Rightarrow> loop_end" where
  "main_loop p [] s = Blocked s"
| "main_loop p (e # es) s =
     (case scan p e s of
        Inl (c, s') \<Rightarrow> Aborted c s'
      | Inr s' \<Rightarrow> if all_done s' then Left s' else main_loop p es s')"

fun last_state :: "loop_end \<Rightarrow> state" where
  "last_state (Aborted c s) = s"
| "last_state (Left s) = s"
| "last_state (Blocked s) = s"

text \<open>Lines 934-958: after the loop \<^verbatim>\<open>gettimeofday\<close> is called once more (its result
  is the argument \<open>tod\<close>), the statistics are printed and \<^verbatim>\<open>main\<close> returns. The exit
  status is \<open>None\<close> while the program is still running.\<close>

fun exit_status :: "int \<Rightarrow> loop_end \<Rightarrow> int option" where
  "exit_status tod (Aborted c s) = Some c"
| "exit_status tod (Left s) = Some (if tod = - 1 then EXIT_FAILURE else EXIT_SUCCESS)"
| "exit_status tod (Blocked s) = None"

text \<open>Lines 426-516 and the initialisers of lines 141-169: both queues are zeroed,
  every slot is free and holds the descriptor opened for it (\<open>ifd\<close>, \<open>ofd\<close> give the
  descriptor of each slot).\<close>

definition zero_aiocb :: aiocb where
  "zero_aiocb = \<lparr>aio_fildes = 0, aio_reqprio = 0, aio_buf = NULL, aio_offset = 0, aio_nbytes = 0\<rparr>"

definition new_item :: "int \<Rightarrow> blkqueitem" where
  "new_item d = \<lparr>rqnum = 0, fd = d, status = QUEITEM_FREE, retcode = 0, buffer = NULL,
                 fdoffset = 0, readyb = 0, aiodata = zero_aiocb\<rparr>"

definition init_state :: "params \<Rightarrow> (nat \<Rightarrow> int) \<Rightarrow> (nat \<Rightarrow> int) \<Rightarrow> state" where
  "init_state p ifd ofd =
     \<lparr>ique = map (\<lambda>i. new_item (ifd i)) [0..<imaxqsize p],
      oque = map (\<lambda>i. new_item (ofd i)) [0..<omaxqsize p],
      irqnum = 0, orqnum = 0, ioff = 0, ooff = 0, iqsize = 0, oqsize = 0, eof = False,
      aio_reads = [], reads_done = [], aio_writes = [], frees = []\<rparr>"

section \<open>Predicates used in the statements\<close>

text \<open>The number of slots of a queue that are not free, and the test that none is.\<close>

definition busy :: "blkqueitem list \<Rightarrow> nat" where
  "busy qs = length (filter (\<lambda>q. status q \<noteq> QUEITEM_FREE) qs)"

definition all_free :: "blkqueitem list \<Rightarrow> bool" where
  "all_free qs = list_all (\<lambda>q. status q = QUEITEM_FREE) qs"

text \<open>The number of bytes handed to \<^verbatim>\<open>aio_write\<close> by a list of writes, as a
  \<^verbatim>\<open>size_t\<close>.\<close>

definition nbytes_total :: "wsubmit list \<Rightarrow> 64 word" where
  "nbytes_total ws = sum_list (map (\<lambda>w. aio_nbytes (w_cb w)) ws)"

text \<open>The file offset and the byte count of the \<open>k\<close>-th logged write.\<close>

definition w_offset :: "wsubmit list \<Rightarrow> nat \<Rightarrow> 64 word" where
  "w_offset ws k = aio_offset (w_cb (ws ! k))"

definition w_nbytes :: "wsubmit list \<Rightarrow> nat \<Rightarrow> 64 word" where
  "w_nbytes ws k = aio_nbytes (w_cb (ws ! k))"

section \<open>Invariants of the main loop\<close>

text \<open>The queue counters agree with the queues, and no output slot is ever ready.\<close>

definition counted :: "params \<Rightarrow> state \<Rightarrow> bool" where
  "counted p s \<longleftrightarrow>
     length (ique s) = imaxqsize p \<and> length (oque s) = omaxqsize p \<and>
     iqsize s = int (busy (ique s)) \<and> oqsize s = int (busy (oque s)) \<and>
     list_all (\<lambda>q. status q \<noteq> QUEITEM_READY) (oque s)"

text \<open>A postcondition for a step: \<open>I\<close> after normal completion, \<open>L\<close> on the state in
  which the process exits.\<close>

definition post :: "('a \<Rightarrow> bool) \<Rightarrow> (state \<Rightarrow> bool) \<Rightarrow> 'a result \<Rightarrow> bool" where
  "post I L r = (case r of Inl (c, s) \<Rightarrow> L s | Inr x \<Rightarrow> I x)"

fun loop_post :: "(state \<Rightarrow> bool) \<Rightarrow> (state \<Rightarrow> bool) \<Rightarrow> loop_end \<Rightarrow> bool" where
  "loop_post I L (Aborted c s) = L s"
| "loop_post I L (Left s) = I s"
| "loop_post I L (Blocked s) = I s"

text \<open>What holds of the \<open>k\<close>-th write of the log \<open>ws\<close> (counting from 0): its request
  number, the read it carries when the output cannot seek, its file offset, and that it
  carries at least one byte.\<close>

definition write_ok :: "params \<Rightarrow> wsubmit list \<Rightarrow> nat \<Rightarrow> wsubmit \<Rightarrow> bool" where
  "write_ok p ws k w \<longleftrightarrow>
     w_rqnum w = int k + 1 \<and>
     (\<not> oseekable p \<longrightarrow> w_source w = int k + 1) \<and>
     aio_offset (w_cb w) =
       (if iseekable p then (word_of_int (w_source w) - 1) * word_of_int (blksize p)
        else nbytes_total (take k ws)) \<and>
     (word_of_int (blksize p) \<noteq> (0 :: 64 word) \<longrightarrow> aio_nbytes (w_cb w) \<noteq> 0)"

definition log_ok :: "params \<Rightarrow> wsubmit list \<Rightarrow> bool" where
  "log_ok p ws \<longleftrightarrow> (\<forall>k < length ws. write_ok p ws k (ws ! k))"

text \<open>An input slot in use remembers the offset of its block when the input can seek,
  and a ready slot holds at least one byte.\<close>

definition slot_ok :: "params \<Rightarrow> blkqueitem \<Rightarrow> bool" where
  "slot_ok p q \<longleftrightarrow>
     (status q \<noteq> QUEITEM_FREE \<longrightarrow> iseekable p \<longrightarrow>
        fdoffset q = (word_of_int (rqnum q) - 1) * word_of_int (blksize p)) \<and>
     (status q = QUEITEM_READY \<longrightarrow> word_of_int (blksize p) \<noteq> (0 :: 64 word) \<longrightarrow> readyb q \<noteq> 0)"

definition reads_ok :: "params \<Rightarrow> state \<Rightarrow> bool" where
  "reads_ok p s \<longleftrightarrow>
     list_all (slot_ok p) (ique s) \<and>
     (iseekable p \<longrightarrow> ioff s = word_of_int (irqnum s) * word_of_int (blksize p))"

definition sound :: "params \<Rightarrow> state \<Rightarrow> bool" where
  "sound p s \<longleftrightarrow>
     counted p s \<and>
     orqnum s = int (length (aio_writes s)) \<and>
     ooff s = nbytes_total (aio_writes s) \<and>
     (iseekable p \<longrightarrow> ioff s = word_of_int (irqnum s) * word_of_int (blksize p)) \<and>
     list_all (slot_ok p) (ique s) \<and>
     log_ok p (aio_writes s)"

section \<open>Blocks and their numbers\<close>

text \<open>The block a write carries, as the address of its buffer and its byte count, and
  the block that read number \<open>n\<close> has delivered, if that read is complete.\<close>

definition w_block :: "wsubmit \<Rightarrow> addr \<times> 64 word" where
  "w_block w = (aio_buf (w_cb w), aio_nbytes (w_cb w))"

definition block_of :: "state \<Rightarrow> int \<Rightarrow> (addr \<times> 64 word) option" where
  "block_of s n = map_of (reads_done s) n"

text \<open>Every read number is given out once (line 705). So the two logs obey
  \<open>logs_numbered\<close>: the numbers logged as complete lie between 1 and \<open>n\<close>, the last
  number given out, and none is logged twice; every logged write carries a block logged as
  complete, under the number of its read, and no number is written twice.\<close>

definition logs_numbered :: "int \<Rightarrow> (int \<times> addr \<times> 64 word) list \<Rightarrow> wsubmit list \<Rightarrow> bool" where
  "logs_numbered n rs ws \<longleftrightarrow>
     0 \<le> n \<and> (\<forall>r \<in> set rs. 0 < fst r \<and> fst r \<le> n) \<and> distinct (map fst rs) \<and>
     (\<forall>w \<in> set ws. (w_source w, w_block w) \<in> set rs) \<and> distinct (map w_source ws)"

text \<open>An input slot in use holds a number between 1 and \<open>n\<close> that has not been written.
  When the slot is ready its block is logged as complete under that number, and when it is
  in progress the number is not logged yet.\<close>

definition slot_numbered ::
    "int \<Rightarrow> (int \<times> addr \<times> 64 word) list \<Rightarrow> wsubmit list \<Rightarrow> blkqueitem \<Rightarrow> bool" where
  "slot_numbered n rs ws q \<longleftrightarrow>
     (status q \<noteq> QUEITEM_FREE \<longrightarrow>
        0 < rqnum q \<and> rqnum q \<le> n \<and> rqnum q \<notin> w_source ` set ws \<and>
        (if status q = QUEITEM_READY then (rqnum q, buffer q, readyb q) \<in> set rs
         else rqnum q \<notin> fst ` set rs))"

text \<open>Two input slots in use hold different numbers.\<close>

definition apart :: "blkqueitem list \<Rightarrow> bool" where
  "apart qs \<longleftrightarrow>
     (\<forall>i < length qs. \<forall>j < length qs.
        i \<noteq> j \<longrightarrow> status (qs ! i) \<noteq> QUEITEM_FREE \<longrightarrow> status (qs ! j) \<noteq> QUEITEM_FREE \<longrightarrow>
        rqnum (qs ! i) \<noteq> rqnum (qs ! j))"

definition numbered_of ::
    "blkqueitem list \<Rightarrow> int \<Rightarrow> (int \<times> addr \<times> 64 word) list \<Rightarrow> wsubmit list \<Rightarrow> bool" where
  "numbered_of qs n rs ws \<longleftrightarrow>
     logs_numbered n rs ws \<and> apart qs \<and> list_all (slot_numbered n rs ws) qs"

definition numbered :: "state \<Rightarrow> bool" where
  "numbered s = numbered_of (ique s) (irqnum s) (reads_done s) (aio_writes s)"



section \<open>Draining the queues\<close>

text \<open>The number of iterations the queues may still need: a read in flight has to be
  reaped, handed over and written, a ready block handed over and written, a write in
  flight reaped.\<close>

definition weight_in :: "blkqueitem \<Rightarrow> nat" where
  "weight_in q = (case status q of QUEITEM_FREE \<Rightarrow> 0 | QUEITEM_READY \<Rightarrow> 2 | QUEITEM_INPROGRESS \<Rightarrow> 3)"

definition weight_out :: "blkqueitem \<Rightarrow> nat" where
  "weight_out q = (if status q = QUEITEM_FREE then 0 else 1)"

definition pending :: "state \<Rightarrow> nat" where
  "pending s = sum_list (map weight_in (ique s)) + sum_list (map weight_out (oque s))"

text \<open>An environment settles in a state when every request in flight has finished by
  the time it is probed: a read was cancelled, or returns either nothing or the rest of its
  block; a write ended normally, was cancelled, or met \<^verbatim>\<open>EFBIG\<close>; and every allocation
  and submission is accepted. A list of environments is settling when each one settles in
  the state its iteration starts in, up to the iteration that leaves the loop.\<close>

definition read_settles :: "params \<Rightarrow> env \<Rightarrow> nat \<Rightarrow> blkqueitem \<Rightarrow> bool" where
  "read_settles p e i q \<longleftrightarrow>
     aio_error_i e i = ECANCELED \<or>
     aio_error_i e i = 0 \<and>
       (aio_return_i e i = 0 \<or> readyb q + word_of_int (aio_return_i e i) = word_of_int (blksize p))"

definition write_settles :: "env \<Rightarrow> nat \<Rightarrow> bool" where
  "write_settles e i \<longleftrightarrow>
     aio_error_o e i = 0 \<or> aio_error_o e i = ECANCELED \<or> aio_error_o e i = EFBIG"

definition settles :: "params \<Rightarrow> env \<Rightarrow> state \<Rightarrow> bool" where
  "settles p e s \<longleftrightarrow>
     list_all (\<lambda>i. (status (ique s ! i) = QUEITEM_INPROGRESS \<longrightarrow> read_settles p e i (ique s ! i)) \<and>
                   fst (posix_memalign e i) = 0 \<and> aio_read e i \<noteq> - 1)
       [0..<length (ique s)] \<and>
     list_all (\<lambda>i. (status (oque s ! i) = QUEITEM_INPROGRESS \<longrightarrow> write_settles e i) \<and>
                   aio_write e i \<noteq> - 1)
       [0..<length (oque s)]"

fun settling :: "params \<Rightarrow> env list \<Rightarrow> state \<Rightarrow> bool" where
  "settling p [] s = True"
| "settling p (e # es) s =
     (settles p e s \<and>
      (case scan p e s of Inl x \<Rightarrow> True | Inr s' \<Rightarrow> all_done s' \<or> settling p es s'))"

text \<open>The ready blocks are in order when the block that is next to be written has not
  been dropped: if an input slot is ready, then read number \<^verbatim>\<open>orqnum + 1\<close> is held by an
  input slot in use. A run stays in order when this holds at the head of the loop in each
  of its iterations.\<close>

definition in_order :: "state \<Rightarrow> bool" where
  "in_order s \<longleftrightarrow>
     (list_ex (\<lambda>q. status q = QUEITEM_READY) (ique s) \<longrightarrow>
      list_ex (\<lambda>q. status q \<noteq> QUEITEM_FREE \<and> rqnum q = orqnum s + 1) (ique s))"

fun in_order_run :: "params \<Rightarrow> env list \<Rightarrow> state \<Rightarrow> bool" where
  "in_order_run p [] s = True"
| "in_order_run p (e # es) s =
     (in_order s \<and>
      (case scan p e s of Inl x \<Rightarrow> True | Inr s' \<Rightarrow> all_done s' \<or> in_order_run p es s'))"

text \<open>What one step and one pass do to the queues when the environment settles.\<close>

definition in_step_post :: "nat \<Rightarrow> state \<Rightarrow> state \<Rightarrow> bool" where
  "in_step_post i s s' \<longleftrightarrow>
     oque s' = oque s \<and> length (ique s') = length (ique s) \<and> (eof s \<longrightarrow> eof s') \<and>
     (\<forall>k. k \<noteq> i \<longrightarrow> ique s' ! k = ique s ! k) \<and>
     (eof s \<longrightarrow>
        status (ique s' ! i) \<noteq> QUEITEM_INPROGRESS \<and>
        weight_in (ique s' ! i) \<le> weight_in (ique s ! i) \<and>
        (status (ique s ! i) = QUEITEM_INPROGRESS \<longrightarrow> weight_in (ique s' ! i) < weight_in (ique s ! i)))"

definition in_pass_inv :: "state \<Rightarrow> nat \<Rightarrow> state \<Rightarrow> bool" where
  "in_pass_inv s0 m s \<longleftrightarrow>
     oque s = oque s0 \<and> length (ique s) = length (ique s0) \<and> (eof s0 \<longrightarrow> eof s) \<and>
     (\<forall>k. m \<le> k \<longrightarrow> ique s ! k = ique s0 ! k) \<and>
     (eof s0 \<longrightarrow>
        (\<forall>k<m. status (ique s ! k) \<noteq> QUEITEM_INPROGRESS) \<and>
        sum_list (map weight_in (ique s)) \<le> sum_list (map weight_in (ique s0)) \<and>
        ((\<exists>k<m. status (ique s0 ! k) = QUEITEM_INPROGRESS) \<longrightarrow>
           sum_list (map weight_in (ique s)) < sum_list (map weight_in (ique s0))))"

text \<open>Input slot \<open>k\<close> can be handed to a write (line 838): it is ready, and when the
  output cannot seek it holds the block that is next in read order.\<close>

definition matchable :: "params \<Rightarrow> state \<Rightarrow> nat \<Rightarrow> bool" where
  "matchable p s k \<longleftrightarrow>
     status (ique s ! k) = QUEITEM_READY \<and> (oseekable p \<or> rqnum (ique s ! k) = orqnum s + 1)"

definition out_step_post :: "params \<Rightarrow> env \<Rightarrow> nat \<Rightarrow> nat \<Rightarrow> state \<Rightarrow> state \<Rightarrow> bool" where
  "out_step_post p e i j s s' \<longleftrightarrow>
     length (ique s') = length (ique s) \<and> length (oque s') = length (oque s) \<and>
     (\<forall>k. k \<noteq> i \<longrightarrow> oque s' ! k = oque s ! k) \<and>
     (eof s \<longrightarrow> eof s') \<and> set (frees s) \<subseteq> set (frees s') \<and>
     pending s' \<le> pending s \<and>
     (\<forall>k. status (ique s' ! k) = QUEITEM_INPROGRESS \<longrightarrow> status (ique s ! k) = QUEITEM_INPROGRESS) \<and>
     (status (oque s ! i) = QUEITEM_INPROGRESS \<longrightarrow>
        pending s' < pending s \<and> status (oque s' ! i) = QUEITEM_FREE \<and>
        buffer (oque s' ! i) = NULL \<and> buffer (oque s ! i) \<in> set (frees s') \<and>
        (aio_error_o e i = EFBIG \<longrightarrow> eof s')) \<and>
     (status (oque s ! i) = QUEITEM_FREE \<and>
      (\<exists>k. j \<le> k \<and> k < imaxqsize p \<and> matchable p s k) \<longrightarrow>
        pending s' < pending s)"

definition handed :: "nat \<Rightarrow> state \<Rightarrow> state \<Rightarrow> bool" where
  "handed i s s' \<longleftrightarrow>
     status (oque s' ! i) = QUEITEM_INPROGRESS \<and>
     length (ique s') = length (ique s) \<and> length (oque s') = length (oque s) \<and>
     (\<forall>k. k \<noteq> i \<longrightarrow> oque s' ! k = oque s ! k) \<and>
     eof s' = eof s \<and> frees s' = frees s \<and>
     (\<forall>k. status (ique s' ! k) = QUEITEM_INPROGRESS \<longrightarrow> status (ique s ! k) = QUEITEM_INPROGRESS) \<and>
     pending s' < pending s"

definition out_pass_inv :: "params \<Rightarrow> state \<Rightarrow> nat \<Rightarrow> nat \<times> state \<Rightarrow> bool" where
  "out_pass_inv p s1 m js \<longleftrightarrow>
     (case js of (j, s) \<Rightarrow>
        counted p s \<and> eof s \<and>
        (\<forall>k. m \<le> k \<longrightarrow> oque s ! k = oque s1 ! k) \<and>
        (\<forall>k<imaxqsize p. status (ique s ! k) \<noteq> QUEITEM_INPROGRESS) \<and>
        pending s \<le> pending s1 \<and>
        (m = 0 \<longrightarrow> j = 0 \<and> ique s = ique s1 \<and> orqnum s = orqnum s1) \<and>
        ((\<exists>k<m. status (oque s1 ! k) = QUEITEM_INPROGRESS) \<or>
         0 < m \<and> (\<exists>k<imaxqsize p. matchable p s1 k) \<longrightarrow>
           pending s < pending s1))"

definition first_inv :: "params \<Rightarrow> state \<Rightarrow> nat \<Rightarrow> nat \<Rightarrow> nat \<times> state \<Rightarrow> bool" where
  "first_inv p s1 i m js \<longleftrightarrow>
     (case js of (j, s) \<Rightarrow>
        counted p s \<and> (eof s1 \<longrightarrow> eof s) \<and>
        (\<forall>k. m \<le> k \<longrightarrow> oque s ! k = oque s1 ! k) \<and>
        (i < m \<longrightarrow>
           eof s \<and> status (oque s ! i) = QUEITEM_FREE \<and> buffer (oque s ! i) = NULL \<and>
           buffer (oque s1 ! i) \<in> set (frees s)))"

text \<open>An environment is calm when none of its answers ends the process: every probe
  reports a request that is finished, still in progress, cancelled or, for a write, refused
  with \<^verbatim>\<open>EFBIG\<close>, and every allocation and submission is accepted.\<close>

definition calm :: "params \<Rightarrow> env \<Rightarrow> bool" where
  "calm p e \<longleftrightarrow>
     list_all (\<lambda>i. (aio_error_i e i = 0 \<or> aio_error_i e i = EINPROGRESS \<or>
                    aio_error_i e i = ECANCELED) \<and>
                   fst (posix_memalign e i) = 0 \<and> aio_read e i \<noteq> - 1)
       [0..<imaxqsize p] \<and>
     list_all (\<lambda>i. (aio_error_o e i = 0 \<or> aio_error_o e i = EINPROGRESS \<or>
                    aio_error_o e i = ECANCELED \<or> aio_error_o e i = EFBIG) \<and>
                   aio_write e i \<noteq> - 1)
       [0..<omaxqsize p]"

text \<open>What a step on output slot \<open>i\<close> keeps: the other output slots, \<open>eof\<close> once
  set, and the pointers already freed.\<close>

definition kept :: "nat \<Rightarrow> state \<Rightarrow> state \<Rightarrow> bool" where
  "kept i s s' \<longleftrightarrow>
     length (oque s') = length (oque s) \<and> (\<forall>k. k \<noteq> i \<longrightarrow> oque s' ! k = oque s ! k) \<and>
     (eof s \<longrightarrow> eof s') \<and> set (frees s) \<subseteq> set (frees s')"

text \<open>A state is stuck when the loop can neither go on nor end: \<open>eof\<close> is set, so no new
  read is submitted, no request is in flight, no input slot can be handed to a write, and
  yet the test of line 904 fails.\<close>

definition stuck :: "params \<Rightarrow> state \<Rightarrow> bool" where
  "stuck p s \<longleftrightarrow>
     eof s \<and> \<not> all_done s \<and>
     list_all (\<lambda>k. status (ique s ! k) \<noteq> QUEITEM_INPROGRESS \<and> \<not> matchable p s k) [0..<imaxqsize p] \<and>
     list_all (\<lambda>i. status (oque s ! i) \<noteq> QUEITEM_INPROGRESS) [0..<omaxqsize p]"

section \<open>Concrete runs\<close>

text \<open>The runs below are used to exercise the theorems. Descriptors and buffer
  addresses are arbitrary; \<open>answers rd mem wr\<close> is an iteration in which the probe of
  input slot \<open>i\<close> gives \<open>rd i\<close> (the values of \<^verbatim>\<open>aio_error\<close> and \<^verbatim>\<open>aio_return\<close>),
  the probe of output slot \<open>i\<close> gives \<open>wr i\<close>, \<^verbatim>\<open>posix_memalign\<close> succeeds with the
  address \<open>mem i\<close>, and every submission is accepted.\<close>

definition fd_in :: "nat \<Rightarrow> int" where "fd_in i = 3 + int i"
definition fd_out :: "nat \<Rightarrow> int" where "fd_out i = 40 + int i"

definition answers :: "(nat \<Rightarrow> int \<times> int) \<Rightarrow> (nat \<Rightarrow> addr) \<Rightarrow> (nat \<Rightarrow> int \<times> int) \<Rightarrow> env" where
  "answers rd mem wr =
     \<lparr>aio_error_i = (\<lambda>i. fst (rd i)), aio_return_i = (\<lambda>i. snd (rd i)),
      posix_memalign = (\<lambda>i. (0, mem i)), aio_read = (\<lambda>i. 0),
      aio_error_o = (\<lambda>i. fst (wr i)), aio_return_o = (\<lambda>i. snd (wr i)),
      aio_write = (\<lambda>i. 0)\<rparr>"

definition running :: "nat \<Rightarrow> int \<times> int" where "running i = (EINPROGRESS, 0)"
definition done_with :: "int \<Rightarrow> nat \<Rightarrow> int \<times> int" where "done_with n i = (0, n)"
definition failed_with :: "int \<Rightarrow> nat \<Rightarrow> int \<times> int" where "failed_with e i = (e, - 1)"
definition mem_at :: "addr \<Rightarrow> nat \<Rightarrow> addr" where "mem_at a i = a + 4096 * of_nat i"

text \<open>A pipe copied to a pipe in blocks of 512 bytes. The source delivers 512 bytes,
  then 100 bytes, then ends: the second block is a short read that is resubmitted and then
  cut off by the end of the data.\<close>

definition pipe_params :: params where
  "pipe_params = \<lparr>blksize = 512, imaxqsize = 1, omaxqsize = 1, iseekable = False, oseekable = False\<rparr>"

definition pipe_run :: "env list" where
  "pipe_run =
     [answers running (mem_at 4096) running,
      answers (done_with 512) (mem_at 4096) running,
      answers running (mem_at 8192) (done_with 512),
      answers (done_with 100) (mem_at 8192) running,
      answers (done_with 0) (mem_at 8192) running,
      answers running (mem_at 8192) (done_with 100)]"

definition pipe_state :: "nat \<Rightarrow> state" where
  "pipe_state n =
     last_state (main_loop pipe_params (take n pipe_run) (init_state pipe_params fd_in fd_out))"

text \<open>The same answers with a regular file as the destination (\<^verbatim>\<open>-q 2\<close>: the
  queue of the pipe is cut to one slot).\<close>

definition pipe_to_file_params :: params where
  "pipe_to_file_params =
     \<lparr>blksize = 512, imaxqsize = 1, omaxqsize = 2, iseekable = False, oseekable = True\<rparr>"

definition pipe_to_file_state :: "nat \<Rightarrow> state" where
  "pipe_to_file_state n =
     last_state (main_loop pipe_to_file_params (take n pipe_run)
       (init_state pipe_to_file_params fd_in fd_out))"

text \<open>A file of 1024 bytes copied to a file with two slots on each side
  (\<^verbatim>\<open>-q 2\<close>). The second block arrives before the first; the reads past the
  end of the file return 0.\<close>

definition file_params :: params where
  "file_params = \<lparr>blksize = 512, imaxqsize = 2, omaxqsize = 2, iseekable = True, oseekable = True\<rparr>"

definition second_first :: "nat \<Rightarrow> int \<times> int" where
  "second_first i = (if i = 0 then (EINPROGRESS, 0) else (0, 512))"

definition file_run :: "env list" where
  "file_run =
     [answers running (mem_at 4096) running,
      answers second_first (mem_at 4096) running,
      answers (done_with 512) (mem_at 16384) (done_with 512),
      answers (done_with 0) (mem_at 32768) (done_with 512),
      answers (done_with 0) (mem_at 32768) running]"

definition file_state :: "nat \<Rightarrow> state" where
  "file_state n =
     last_state (main_loop file_params (take n file_run) (init_state file_params fd_in fd_out))"

text \<open>A file copied to a destination that is full, with one slot on each side
  (\<^verbatim>\<open>-q 1\<close>): both writes end with \<^verbatim>\<open>EFBIG\<close>.\<close>

definition full_params :: params where
  "full_params = \<lparr>blksize = 512, imaxqsize = 1, omaxqsize = 1, iseekable = True, oseekable = True\<rparr>"

definition full_run :: "env list" where
  "full_run =
     [answers running (mem_at 4096) running,
      answers (done_with 512) (mem_at 4096) running,
      answers running (mem_at 8192) (failed_with EFBIG),
      answers (done_with 512) (mem_at 8192) running,
      answers running (mem_at 8192) (failed_with EFBIG)]"

text \<open>An iteration in which every request in flight is still running, what follows
  the third iteration of that run, with three such iterations added, and an iteration in
  which the read in flight fails with \<^verbatim>\<open>EIO\<close>.\<close>

definition idle :: env where
  "idle = answers running (mem_at 8192) running"

definition full_rest :: "env list" where
  "full_rest = drop 3 full_run @ replicate 3 idle"

definition EIO :: int where "EIO = 5"

definition read_fails :: env where
  "read_fails = answers (failed_with EIO) (mem_at 8192) running"

definition full_state :: "nat \<Rightarrow> state" where
  "full_state n =
     last_state (main_loop full_params (take n full_run) (init_state full_params fd_in fd_out))"

text \<open>The same answers when both sides are pipes.\<close>

definition pipe_full_state :: "nat \<Rightarrow> state" where
  "pipe_full_state n =
     last_state (main_loop pipe_params (take n full_run) (init_state pipe_params fd_in fd_out))"

text \<open>A file copied to a pipe with two slots on the input side (\<^verbatim>\<open>-q 2\<close>: the
  queue of the pipe is cut to one slot), while the file grows. The first block is read
  and handed to a write, whose probe is answered by \<open>wr\<close>. In the third iteration read
  3, at offset 1024, is submitted and then read 2, at offset 512, finds the end of the
  file; in the fourth iteration read 3 finds 512 bytes.\<close>

definition gap_params :: params where
  "gap_params = \<lparr>blksize = 512, imaxqsize = 2, omaxqsize = 1, iseekable = True, oseekable = False\<rparr>"

definition first_done :: "nat \<Rightarrow> int \<times> int" where
  "first_done i = (if i = 0 then (0, 512) else (EINPROGRESS, 0))"

definition gap_run :: "(nat \<Rightarrow> int \<times> int) \<Rightarrow> env list" where
  "gap_run wr =
     [answers running (mem_at 4096) running,
      answers first_done (mem_at 4096) running,
      answers (done_with 0) (mem_at 16384) wr,
      answers (done_with 512) (mem_at 16384) running,
      answers running (mem_at 16384) running]"

definition gap_state :: "(nat \<Rightarrow> int \<times> int) \<Rightarrow> nat \<Rightarrow> state" where
  "gap_state wr n =
     last_state (main_loop gap_params (take n (gap_run wr)) (init_state gap_params fd_in fd_out))"

text \<open>File types for the start-up: a regular file, a FIFO, and a name that does not
  exist.\<close>

definition stat_of :: "string \<Rightarrow> int + 32 word" where
  "stat_of path =
     (if path = ''disk.img'' then Inr 0x81A4
      else if path = ''fifo'' then Inr 0x11A4
      else Inl ENOENT)"

section \<open>Proofs of the invariants\<close>

lemma busy_update_nat:
  "i < length qs \<Longrightarrow>
   busy (qs[i := q]) + (if status (qs ! i) \<noteq> QUEITEM_FREE then 1 else 0) =
     busy qs + (if status q \<noteq> QUEITEM_FREE then 1 else 0)"
proof (induction qs arbitrary: i)
  case Nil
  then show ?case by simp
next
  case (Cons a qs)
  show ?case
  proof (cases i)
    case 0
    then show ?thesis by (simp add: busy_def)
  next
    case (Suc k)
    with Cons.prems have "k < length qs" by simp
    from Cons.IH [OF this] Suc show ?thesis by (simp add: busy_def)
  qed
qed

lemma busy_update:
  "i < length qs \<Longrightarrow>
   int (busy (qs[i := q])) =
     int (busy qs) - of_bool (status (qs ! i) \<noteq> QUEITEM_FREE) + of_bool (status q \<noteq> QUEITEM_FREE)"
  using busy_update_nat [of i qs q] by (simp split: if_splits)

lemma busy_zero: "busy qs = 0 \<longleftrightarrow> all_free qs"
  unfolding busy_def all_free_def
  by (induction qs) auto

lemma busy_update_same:
  "i < length qs \<Longrightarrow> status q = status (qs ! i) \<Longrightarrow> busy (qs[i := q]) = busy qs"
  using busy_update [of i qs q] by simp

lemma list_all_update:
  "list_all P qs \<Longrightarrow> P q \<Longrightarrow> list_all P (qs[i := q])"
  using set_update_subset_insert [of qs i q] by (auto simp add: list_all_iff)

lemma list_all_nth: "list_all P qs \<Longrightarrow> i < length qs \<Longrightarrow> P (qs ! i)"
  by (simp add: list_all_length)

lemma counted_release_input:
  "counted p s \<Longrightarrow> i < imaxqsize p \<Longrightarrow> status (ique s ! i) \<noteq> QUEITEM_FREE \<Longrightarrow>
   counted p (release_input i s)"
  by (simp add: counted_def release_input_def Let_def busy_update)

lemma counted_resubmit_read:
  "counted p s \<Longrightarrow> i < imaxqsize p \<Longrightarrow> resubmit_read p e i s = Inr s' \<Longrightarrow> counted p s'"
  by (auto simp add: counted_def resubmit_read_def Let_def busy_update_same split: if_splits)

lemma counted_read_completed:
  "counted p s \<Longrightarrow> i < imaxqsize p \<Longrightarrow> status (ique s ! i) = QUEITEM_INPROGRESS \<Longrightarrow>
   read_completed p e i s = Inr s' \<Longrightarrow> counted p s'"
  by (auto simp add: counted_def read_completed_def resubmit_read_def release_input_def Let_def
        busy_update split: if_splits)

lemma counted_submit_read:
  "counted p s \<Longrightarrow> i < imaxqsize p \<Longrightarrow> status (ique s ! i) = QUEITEM_FREE \<Longrightarrow>
   submit_read p e i s = Inr s' \<Longrightarrow> counted p s'"
  by (auto simp add: counted_def submit_read_def Let_def busy_update split: if_splits prod.splits)

lemma counted_input_slot:
  assumes "counted p s" and "i < imaxqsize p" and "input_slot p e i s = Inr s'"
  shows "counted p s'"
proof (cases "status (ique s ! i)")
  case QUEITEM_FREE
  with assms show ?thesis
    by (auto simp add: input_slot_def split: if_splits dest: counted_submit_read)
next
  case QUEITEM_READY
  with assms show ?thesis by (simp add: input_slot_def)
next
  case QUEITEM_INPROGRESS
  let ?s1 = "s\<lparr>ique := (ique s)[i := (ique s ! i)\<lparr>retcode := aio_error_i e i\<rparr>]\<rparr>"
  have c1: "counted p ?s1"
    using assms(1,2) by (simp add: counted_def busy_update_same)
  have st1: "status (ique ?s1 ! i) = QUEITEM_INPROGRESS"
    using assms(1,2) QUEITEM_INPROGRESS by (simp add: counted_def)
  let ?s2 = "?s1\<lparr>ique := (ique ?s1)[i := (ique ?s1 ! i)\<lparr>retcode := aio_return_i e i\<rparr>]\<rparr>"
  have c2: "counted p ?s2"
    using c1 assms(2) by (simp add: counted_def busy_update_same)
  have st2: "status (ique ?s2 ! i) \<noteq> QUEITEM_FREE"
    using assms(1,2) QUEITEM_INPROGRESS by (simp add: counted_def)
  from assms(3) QUEITEM_INPROGRESS show ?thesis
    using counted_read_completed [OF c1 assms(2) st1] counted_release_input [OF c2 assms(2) st2] c1
    by (auto simp add: input_slot_def Let_def split: if_splits)
qed

lemma post_Inr [simp]: "post I L (Inr x) = I x"
  by (simp add: post_def)

lemma post_Inl [simp]: "post I L (Inl (c, s)) = L s"
  by (simp add: post_def)

lemma postD: "post I L r \<Longrightarrow> r = Inr x \<Longrightarrow> I x"
  by simp

lemma postI:
  assumes "\<And>x. r = Inr x \<Longrightarrow> I x" and "\<And>c s. r = Inl (c, s) \<Longrightarrow> L s"
  shows "post I L r"
proof (cases r)
  case (Inl a)
  with assms(2) [of "fst a" "snd a"] show ?thesis by (cases a) simp
next
  case (Inr x)
  with assms(1) show ?thesis by simp
qed

lemma for_slots_post:
  assumes "\<And>i x. i \<in> set js \<Longrightarrow> I x \<Longrightarrow> post I L (body i x)" and "I x"
  shows "post I L (for_slots body js x)"
  using assms
proof (induction js arbitrary: x)
  case Nil
  then show ?case by simp
next
  case (Cons i js)
  have b: "post I L (body i x)" using Cons.prems by simp
  show ?case
  proof (cases "body i x")
    case (Inl a)
    with b show ?thesis by simp
  next
    case (Inr x')
    with b have "I x'" by simp
    then have "post I L (for_slots body js x')"
      using Cons.prems(1) by (intro Cons.IH) simp_all
    with Inr show ?thesis by simp
  qed
qed

declare match_loop.simps [simp del]

lemma match_loop_post:
  assumes "\<And>j s. j < imaxqsize p \<Longrightarrow> I s \<Longrightarrow> status (ique s ! j) = QUEITEM_READY \<Longrightarrow>
             status (oque s ! i) \<noteq> QUEITEM_INPROGRESS \<Longrightarrow> post I L (handoff p e i j s)"
    and "I s" and "status (oque s ! i) \<noteq> QUEITEM_INPROGRESS"
  shows "post (\<lambda>(j, s). I s) L (match_loop p e i j s)"
  using assms(2,3)
proof (induction "imaxqsize p - j" arbitrary: j s)
  case 0
  then show ?case by (simp add: match_loop.simps [of p e i j s])
next
  case (Suc n)
  then have j: "j < imaxqsize p" by simp
  let ?r = "if status (ique s ! j) = QUEITEM_READY then handoff p e i j s else Inr s"
  have b: "post I L ?r"
    using j Suc.prems assms(1) by simp
  show ?case
  proof (cases ?r)
    case (Inl a)
    with b j show ?thesis
      by (cases a) (simp add: match_loop.simps [of p e i j s])
  next
    case (Inr s')
    with b have I': "I s'" by simp
    show ?thesis
    proof (cases "status (oque s' ! i) = QUEITEM_INPROGRESS")
      case True
      with Inr I' j show ?thesis by (simp add: match_loop.simps [of p e i j s])
    next
      case False
      have "n = imaxqsize p - (j + 1)" using Suc.hyps(2) by simp
      from Suc.hyps(1) [OF this I' False] Inr False j show ?thesis
        by (simp add: match_loop.simps [of p e i j s])
    qed
  qed
qed

lemma output_slot_post:
  assumes "\<And>j s. j < imaxqsize p \<Longrightarrow> I s \<Longrightarrow> status (ique s ! j) = QUEITEM_READY \<Longrightarrow>
             status (oque s ! i) \<noteq> QUEITEM_INPROGRESS \<Longrightarrow> post I L (handoff p e i j s)"
    and "\<And>s. I s \<Longrightarrow> status (oque s ! i) = QUEITEM_INPROGRESS \<Longrightarrow> post I L (output_probe e i s)"
    and "I s"
  shows "post (\<lambda>(j, s). I s) L (output_slot p e i (j, s))"
proof (cases "status (oque s ! i) = QUEITEM_INPROGRESS")
  case True
  have b: "post I L (output_probe e i s)" using assms(2,3) True by simp
  show ?thesis
  proof (cases "output_probe e i s")
    case (Inl a)
    with b True show ?thesis by (cases a) (simp add: output_slot_def)
  next
    case (Inr s')
    with b True show ?thesis by (simp add: output_slot_def)
  qed
next
  case False
  have "post (\<lambda>(j, s). I s) L (match_loop p e i j s)"
    using assms(1,3) False by (rule match_loop_post)
  with False show ?thesis by (simp add: output_slot_def)
qed

lemma scan_post:
  assumes "\<And>i s. i < imaxqsize p \<Longrightarrow> I s \<Longrightarrow> post I L (input_slot p e i s)"
    and "\<And>i j s. i < omaxqsize p \<Longrightarrow> j < imaxqsize p \<Longrightarrow> I s \<Longrightarrow>
           status (ique s ! j) = QUEITEM_READY \<Longrightarrow>
           status (oque s ! i) \<noteq> QUEITEM_INPROGRESS \<Longrightarrow> post I L (handoff p e i j s)"
    and "\<And>i s. i < omaxqsize p \<Longrightarrow> I s \<Longrightarrow> status (oque s ! i) = QUEITEM_INPROGRESS \<Longrightarrow>
           post I L (output_probe e i s)"
    and "I s"
  shows "post I L (scan p e s)"
proof (cases "input_pass p e s")
  case (Inl a)
  have "post I L (input_pass p e s)"
    unfolding input_pass_def using assms(1,4) by (intro for_slots_post) simp_all
  with Inl show ?thesis by (simp add: scan_def)
next
  case (Inr s1)
  have "post I L (input_pass p e s)"
    unfolding input_pass_def using assms(1,4) by (intro for_slots_post) simp_all
  with Inr have I1: "I s1" by simp
  have "post (\<lambda>(j, s). I s) L (for_slots (output_slot p e) [0..<omaxqsize p] (0, s1))"
  proof (rule for_slots_post)
    show "(case (0, s1) of (j, s) \<Rightarrow> I s)" using I1 by simp
  next
    fix i and x :: "nat \<times> state"
    assume i: "i \<in> set [0..<omaxqsize p]" and x: "case x of (j, s) \<Rightarrow> I s"
    obtain j s' where xe: "x = (j, s')" by (cases x)
    with x have "I s'" by simp
    then have "post (\<lambda>(j, s). I s) L (output_slot p e i (j, s'))"
      using i assms(2,3) by (intro output_slot_post) simp_all
    with xe show "post (\<lambda>(j, s). I s) L (output_slot p e i x)" by simp
  qed
  then have "post I L (output_pass p e s1)"
    by (cases "for_slots (output_slot p e) [0..<omaxqsize p] (0, s1)")
       (simp_all add: output_pass_def post_def split: prod.splits)
  with Inr show ?thesis by (simp add: scan_def)
qed

lemma main_loop_post:
  assumes "\<And>e s. I s \<Longrightarrow> post I L (scan p e s)" and "I s"
  shows "loop_post I L (main_loop p es s)"
  using assms(2)
proof (induction es arbitrary: s)
  case Nil
  then show ?case by simp
next
  case (Cons e es)
  from assms(1) [OF Cons.prems] have b: "post I L (scan p e s)" .
  show ?case
  proof (cases "scan p e s")
    case (Inl a)
    with b show ?thesis by (cases a) simp
  next
    case (Inr s')
    with b have "I s'" by simp
    with Cons.IH [of s'] Inr show ?thesis by simp
  qed
qed

lemma counted_handoff:
  assumes "counted p s" and "i < omaxqsize p" and "j < imaxqsize p"
    and "status (ique s ! j) = QUEITEM_READY" and "status (oque s ! i) \<noteq> QUEITEM_INPROGRESS"
  shows "post (counted p) (\<lambda>s. True) (handoff p e i j s)"
proof -
  have "status (oque s ! i) \<noteq> QUEITEM_READY"
    using assms(1,2) list_all_nth [of "\<lambda>q. status q \<noteq> QUEITEM_READY" "oque s" i]
    by (simp add: counted_def)
  with assms(5) have fr: "status (oque s ! i) = QUEITEM_FREE"
    by (cases "status (oque s ! i)") simp_all
  show ?thesis
    using assms(1-4) fr
    by (simp add: handoff_def Let_def counted_def busy_update list_all_update)
qed

lemma counted_release_output:
  "counted p s \<Longrightarrow> i < omaxqsize p \<Longrightarrow> status (oque s ! i) = QUEITEM_INPROGRESS \<Longrightarrow>
   counted p (release_output i s)"
  by (simp add: counted_def release_output_def Let_def busy_update list_all_update)

lemma counted_oque_retcode:
  "counted p s \<Longrightarrow> i < omaxqsize p \<Longrightarrow>
   counted p (s\<lparr>oque := (oque s)[i := (oque s ! i)\<lparr>retcode := rc\<rparr>]\<rparr>)"
  using list_all_nth [of "\<lambda>q. status q \<noteq> QUEITEM_READY" "oque s" i]
  by (simp add: counted_def busy_update_same list_all_update)

lemma counted_eof: "counted p (s\<lparr>eof := b\<rparr>) = counted p s"
  by (simp add: counted_def)

lemma counted_output_probe:
  assumes "counted p s" and "i < omaxqsize p" and "status (oque s ! i) = QUEITEM_INPROGRESS"
    and "output_probe e i s = Inr s'"
  shows "counted p s'"
proof -
  let ?s1 = "s\<lparr>oque := (oque s)[i := (oque s ! i)\<lparr>retcode := aio_error_o e i\<rparr>]\<rparr>"
  let ?s2 = "?s1\<lparr>oque := (oque ?s1)[i := (oque ?s1 ! i)\<lparr>retcode := aio_return_o e i\<rparr>]\<rparr>"
  have len: "i < length (oque s)" using assms(1,2) by (simp add: counted_def)
  have c1: "counted p ?s1" using assms(1,2) by (rule counted_oque_retcode)
  then have c2: "counted p ?s2" using assms(2) by (rule counted_oque_retcode)
  have st1: "status (oque ?s1 ! i) = QUEITEM_INPROGRESS" using len assms(3) by simp
  have st2: "status (oque ?s2 ! i) = QUEITEM_INPROGRESS" using len assms(3) by simp
  have r1: "counted p (release_output i ?s1)"
    using c1 assms(2) st1 by (rule counted_release_output)
  have r1e: "counted p (release_output i (?s1\<lparr>eof := True\<rparr>))"
    using c1 assms(2) st1 by (intro counted_release_output) (simp_all add: counted_eof)
  have r2: "counted p (release_output i ?s2)"
    using c2 assms(2) st2 by (rule counted_release_output)
  have r2e: "counted p (release_output i (?s2\<lparr>eof := True\<rparr>))"
    using c2 assms(2) st2 by (intro counted_release_output) (simp_all add: counted_eof)
  from assms(4) show ?thesis
    unfolding output_probe_def Let_def
    using c1 r1 r1e r2 r2e by (auto split: if_splits)
qed

lemma counted_scan: "counted p s \<Longrightarrow> post (counted p) (\<lambda>s. True) (scan p e s)"
proof (rule scan_post)
  fix i s assume "i < imaxqsize p" "counted p s"
  then show "post (counted p) (\<lambda>s. True) (input_slot p e i s)"
    by (intro postI) (simp_all add: counted_input_slot)
next
  fix i j s
  assume "i < omaxqsize p" "j < imaxqsize p" "counted p s" "status (ique s ! j) = QUEITEM_READY"
    "status (oque s ! i) \<noteq> QUEITEM_INPROGRESS"
  then show "post (counted p) (\<lambda>s. True) (handoff p e i j s)"
    by (simp add: counted_handoff)
next
  fix i s
  assume "i < omaxqsize p" "counted p s" "status (oque s ! i) = QUEITEM_INPROGRESS"
  then show "post (counted p) (\<lambda>s. True) (output_probe e i s)"
    by (intro postI) (simp_all add: counted_output_probe)
qed

lemma counted_init: "counted p (init_state p ifd ofd)"
  by (simp add: counted_def init_state_def busy_def new_item_def list_all_iff)

lemma counted_main_loop: "loop_post (counted p) (\<lambda>s. True) (main_loop p es (init_state p ifd ofd))"
  by (rule main_loop_post) (simp_all add: counted_scan counted_init)

lemma write_ok_take:
  "k < length ws \<Longrightarrow> write_ok p (ws @ [w]) k x = write_ok p ws k x"
  by (simp add: write_ok_def)

lemma log_ok_snoc:
  assumes "log_ok p ws" and "write_ok p ws (length ws) w"
  shows "log_ok p (ws @ [w])"
  unfolding log_ok_def
proof (intro allI impI)
  fix k assume "k < length (ws @ [w])"
  then consider "k < length ws" | "k = length ws" by fastforce
  then show "write_ok p (ws @ [w]) k ((ws @ [w]) ! k)"
  proof cases
    case 1
    with assms(1) show ?thesis by (simp add: log_ok_def nth_append write_ok_take)
  next
    case 2
    with assms(2) show ?thesis by (simp add: write_ok_def)
  qed
qed

lemma nbytes_total_snoc: "nbytes_total (ws @ [w]) = nbytes_total ws + aio_nbytes (w_cb w)"
  by (simp add: nbytes_total_def)

lemma sound_handoff:
  assumes "sound p s" and "i < omaxqsize p" and "j < imaxqsize p"
    and "status (ique s ! j) = QUEITEM_READY" and "status (oque s ! i) \<noteq> QUEITEM_INPROGRESS"
  shows "post (sound p) (\<lambda>s. log_ok p (aio_writes s)) (handoff p e i j s)"
proof -
  have c: "counted p s" using assms(1) by (simp add: sound_def)
  then have len: "j < length (ique s)" using assms(3) by (simp add: counted_def)
  have "slot_ok p (ique s ! j)"
    using assms(1) len list_all_nth [of "slot_ok p" "ique s" j] by (simp add: sound_def)
  with assms(4) have
    off: "iseekable p \<longrightarrow> fdoffset (ique s ! j) = (word_of_int (rqnum (ique s ! j)) - 1) * word_of_int (blksize p)"
    and nz: "word_of_int (blksize p) \<noteq> (0 :: 64 word) \<longrightarrow> readyb (ique s ! j) \<noteq> 0"
    by (simp_all add: slot_ok_def)
  have c': "post (counted p) (\<lambda>s. True) (handoff p e i j s)"
    using c assms(2-5) by (rule counted_handoff)
  show ?thesis
  proof (rule postI)
    fix c0 s' assume "handoff p e i j s = Inl (c0, s')"
    then have "aio_writes s' = aio_writes s"
      by (auto simp add: handoff_def Let_def split: if_splits)
    with assms(1) show "log_ok p (aio_writes s')" by (simp add: sound_def)
  next
    fix s' assume h: "handoff p e i j s = Inr s'"
    with c' have c1: "counted p s'" by simp
    show "sound p s'"
    proof (cases "\<not> oseekable p \<and> rqnum (ique s ! j) \<noteq> orqnum s + 1")
      case True
      with h assms(1) show ?thesis by (simp add: handoff_def)
    next
      case False
      let ?off = "if \<not> iseekable p then ooff s else fdoffset (ique s ! j)"
      let ?cb = "(aiodata (oque s ! i))\<lparr>aio_nbytes := readyb (ique s ! j), aio_fildes := fd (oque s ! i),
                       aio_buf := buffer (ique s ! j), aio_offset := ?off, aio_reqprio := 0\<rparr>"
      let ?w = "\<lparr>w_rqnum = orqnum s + 1, w_source = rqnum (ique s ! j), w_cb = ?cb\<rparr>"
      from h False have
        e1: "aio_writes s' = aio_writes s @ [?w]" and e2: "orqnum s' = orqnum s + 1"
        and e3: "ooff s' = ooff s + readyb (ique s ! j)" and e4: "ioff s' = ioff s"
        and e5: "irqnum s' = irqnum s"
        and e6: "ique s' = (ique s)[j := (ique s ! j)\<lparr>aiodata := (aiodata (ique s ! j))\<lparr>aio_buf := NULL\<rparr>,
                                                   status := QUEITEM_FREE\<rparr>]"
        by (auto simp add: handoff_def Let_def split: if_splits)
      have w: "write_ok p (aio_writes s) (length (aio_writes s)) ?w"
        using assms(1) False off nz by (auto simp add: write_ok_def sound_def)
      have "log_ok p (aio_writes s')"
        unfolding e1 using assms(1) w by (intro log_ok_snoc) (simp_all add: sound_def)
      moreover have "list_all (slot_ok p) (ique s')"
        unfolding e6 using assms(1) by (intro list_all_update) (simp_all add: sound_def slot_ok_def)
      ultimately show ?thesis
        using c1 assms(1) e1 e2 e3 e4 e5 by (simp add: sound_def nbytes_total_snoc)
    qed
  qed
qed

lemma reads_ok_slot: "reads_ok p s \<Longrightarrow> i < length (ique s) \<Longrightarrow> slot_ok p (ique s ! i)"
  by (simp add: reads_ok_def list_all_nth)

lemma reads_ok_release_input: "reads_ok p s \<Longrightarrow> reads_ok p (release_input i s)"
  by (simp add: reads_ok_def release_input_def Let_def list_all_update slot_ok_def)

lemma reads_ok_retcode:
  "reads_ok p s \<Longrightarrow> i < length (ique s) \<Longrightarrow>
   reads_ok p (s\<lparr>ique := (ique s)[i := (ique s ! i)\<lparr>retcode := rc\<rparr>]\<rparr>)"
  using reads_ok_slot [of p s i]
  by (simp add: reads_ok_def list_all_update slot_ok_def)

lemma reads_ok_read_completed:
  assumes "reads_ok p s" and "i < length (ique s)" and "status (ique s ! i) = QUEITEM_INPROGRESS"
  shows "post (reads_ok p) (\<lambda>s. True) (read_completed p e i s)"
  using assms reads_ok_slot [OF assms(1,2)]
  by (simp add: read_completed_def resubmit_read_def release_input_def Let_def reads_ok_def
        list_all_update slot_ok_def)

lemma reads_ok_submit_read:
  assumes "reads_ok p s" and "i < length (ique s)"
  shows "post (reads_ok p) (\<lambda>s. True) (submit_read p e i s)"
  using assms
  by (simp add: submit_read_def Let_def reads_ok_def list_all_update slot_ok_def
        algebra_simps split: prod.splits)

lemma reads_ok_input_slot:
  assumes "reads_ok p s" and "i < length (ique s)"
  shows "post (reads_ok p) (\<lambda>s. True) (input_slot p e i s)"
proof (cases "status (ique s ! i)")
  case QUEITEM_FREE
  with assms reads_ok_submit_read [OF assms, of e] show ?thesis
    by (simp add: input_slot_def)
next
  case QUEITEM_READY
  with assms show ?thesis by (simp add: input_slot_def)
next
  case QUEITEM_INPROGRESS
  let ?s1 = "s\<lparr>ique := (ique s)[i := (ique s ! i)\<lparr>retcode := aio_error_i e i\<rparr>]\<rparr>"
  have r1: "reads_ok p ?s1" using assms by (rule reads_ok_retcode)
  have l1: "i < length (ique ?s1)" using assms(2) by simp
  have st1: "status (ique ?s1 ! i) = QUEITEM_INPROGRESS"
    using assms(2) QUEITEM_INPROGRESS by simp
  have a: "post (reads_ok p) (\<lambda>s. True) (read_completed p e i ?s1)"
    using r1 l1 st1 by (rule reads_ok_read_completed)
  have b: "reads_ok p (release_input i
      (?s1\<lparr>ique := (ique ?s1)[i := (ique ?s1 ! i)\<lparr>retcode := aio_return_i e i\<rparr>]\<rparr>))"
    by (rule reads_ok_release_input, rule reads_ok_retcode) (use r1 l1 in simp_all)
  consider "aio_error_i e i = 0" | "aio_error_i e i = EINPROGRESS" | "aio_error_i e i = ECANCELED"
    | "aio_error_i e i \<noteq> 0" "aio_error_i e i \<noteq> EINPROGRESS" "aio_error_i e i \<noteq> ECANCELED"
    by blast
  then show ?thesis
  proof cases
    case 1
    with QUEITEM_INPROGRESS a show ?thesis by (simp add: input_slot_def Let_def)
  next
    case 2
    with QUEITEM_INPROGRESS r1 show ?thesis
      by (simp add: input_slot_def Let_def EINPROGRESS_def)
  next
    case 3
    with QUEITEM_INPROGRESS b show ?thesis
      by (simp add: input_slot_def Let_def EINPROGRESS_def ECANCELED_def)
  next
    case 4
    with QUEITEM_INPROGRESS show ?thesis by (simp add: input_slot_def Let_def)
  qed
qed

lemma input_slot_frame:
  "post (\<lambda>s'. orqnum s' = orqnum s \<and> aio_writes s' = aio_writes s \<and> ooff s' = ooff s \<and>
              oque s' = oque s \<and> oqsize s' = oqsize s)
        (\<lambda>s'. aio_writes s' = aio_writes s) (input_slot p e i s)"
  by (simp add: input_slot_def read_completed_def resubmit_read_def release_input_def
        submit_read_def Let_def split: prod.splits)

lemma output_probe_frame:
  "post (\<lambda>s'. orqnum s' = orqnum s \<and> aio_writes s' = aio_writes s \<and> ooff s' = ooff s \<and>
              ique s' = ique s \<and> ioff s' = ioff s \<and> irqnum s' = irqnum s \<and> iqsize s' = iqsize s)
        (\<lambda>s'. aio_writes s' = aio_writes s) (output_probe e i s)"
  by (simp add: output_probe_def release_output_def Let_def)

lemma post_conj:
  "post I1 L1 r \<Longrightarrow> post I2 L2 r \<Longrightarrow> post (\<lambda>x. I1 x \<and> I2 x) (\<lambda>s. L1 s \<and> L2 s) r"
  by (cases r) (auto simp add: post_def)

lemma post_mono:
  "post I L r \<Longrightarrow> (\<And>x. I x \<Longrightarrow> I' x) \<Longrightarrow> (\<And>s. L s \<Longrightarrow> L' s) \<Longrightarrow> post I' L' r"
  by (cases r) (auto simp add: post_def)

lemma sound_alt:
  "sound p s \<longleftrightarrow>
     counted p s \<and> reads_ok p s \<and> orqnum s = int (length (aio_writes s)) \<and>
     ooff s = nbytes_total (aio_writes s) \<and> log_ok p (aio_writes s)"
  by (auto simp add: sound_def reads_ok_def)

lemma sound_input_slot:
  assumes "sound p s" and "i < imaxqsize p"
  shows "post (sound p) (\<lambda>s. log_ok p (aio_writes s)) (input_slot p e i s)"
proof -
  have c: "counted p s" and r: "reads_ok p s" using assms(1) by (simp_all add: sound_alt)
  have len: "i < length (ique s)" using c assms(2) by (simp add: counted_def)
  have 1: "post (counted p) (\<lambda>s. True) (input_slot p e i s)"
    using c assms(2) by (intro postI) (simp_all add: counted_input_slot)
  have 2: "post (reads_ok p) (\<lambda>s. True) (input_slot p e i s)"
    using r len by (rule reads_ok_input_slot)
  note 3 = input_slot_frame [of s p e i]
  show ?thesis
    by (rule post_mono [OF post_conj [OF post_conj [OF 1 2] 3]])
       (use assms(1) in \<open>simp_all add: sound_alt\<close>)
qed

lemma sound_output_probe:
  assumes "sound p s" and "i < omaxqsize p" and "status (oque s ! i) = QUEITEM_INPROGRESS"
  shows "post (sound p) (\<lambda>s. log_ok p (aio_writes s)) (output_probe e i s)"
proof -
  have c: "counted p s" using assms(1) by (simp add: sound_alt)
  have 1: "post (counted p) (\<lambda>s. True) (output_probe e i s)"
    using c assms(2,3) by (intro postI) (simp_all add: counted_output_probe)
  note 3 = output_probe_frame [of s e i]
  show ?thesis
    by (rule post_mono [OF post_conj [OF 1 3]])
       (use assms(1) in \<open>simp_all add: sound_alt reads_ok_def\<close>)
qed

lemma sound_scan: "sound p s \<Longrightarrow> post (sound p) (\<lambda>s. log_ok p (aio_writes s)) (scan p e s)"
  by (rule scan_post) (simp_all add: sound_input_slot sound_handoff sound_output_probe)

lemma sound_init: "sound p (init_state p ifd ofd)"
  using counted_init [of p ifd ofd]
  by (simp add: sound_def init_state_def new_item_def slot_ok_def log_ok_def nbytes_total_def
        list_all_iff)

lemma sound_main_loop:
  "loop_post (sound p) (\<lambda>s. log_ok p (aio_writes s)) (main_loop p es (init_state p ifd ofd))"
  by (rule main_loop_post) (simp_all add: sound_scan sound_init)

lemma log_ok_last_state: "log_ok p (aio_writes (last_state (main_loop p es (init_state p ifd ofd))))"
  using sound_main_loop [of p es ifd ofd]
  by (cases "main_loop p es (init_state p ifd ofd)") (simp_all add: sound_def)

lemma write_ok_last_state:
  assumes "ws = aio_writes (last_state (main_loop p es (init_state p ifd ofd)))" and "k < length ws"
  shows "write_ok p ws k (ws ! k)"
  using log_ok_last_state [of p es ifd ofd] assms by (simp add: log_ok_def)

lemma nbytes_total_take_Suc:
  "k < length ws \<Longrightarrow> nbytes_total (take (Suc k) ws) = nbytes_total (take k ws) + aio_nbytes (w_cb (ws ! k))"
  by (simp add: take_Suc_conv_app_nth nbytes_total_snoc)

subsection \<open>Nothing clears \<open>eof\<close>\<close>

lemma eof_input_slot: "eof s \<Longrightarrow> post eof eof (input_slot p e i s)"
  by (simp add: input_slot_def read_completed_def resubmit_read_def release_input_def Let_def)

lemma eof_handoff: "eof s \<Longrightarrow> post eof eof (handoff p e i j s)"
  by (simp add: handoff_def Let_def)

lemma eof_output_probe: "eof s \<Longrightarrow> post eof eof (output_probe e i s)"
  by (simp add: output_probe_def release_output_def Let_def)

lemma eof_scan: "eof s \<Longrightarrow> post eof eof (scan p e s)"
  by (rule scan_post) (simp_all add: eof_input_slot eof_handoff eof_output_probe)

lemma eof_latched: "eof s \<Longrightarrow> eof (last_state (main_loop p es s))"
  using main_loop_post [of eof eof p s es, OF eof_scan]
  by (cases "main_loop p es s") simp_all

subsection \<open>Arithmetic of \<^verbatim>\<open>size_t\<close> values\<close>

lemma uint_of_int_small: "0 \<le> n \<Longrightarrow> n < 2 ^ 64 \<Longrightarrow> uint (word_of_int n :: 64 word) = n"
  by (simp add: uint_word_of_int take_bit_int_eq_self)

lemma uint_plus_of_int:
  "0 \<le> n \<Longrightarrow> uint (w :: 64 word) + n < 2 ^ 64 \<Longrightarrow> uint (w + word_of_int n) = uint w + n"
  by (simp add: uint_word_ariths uint_word_of_int take_bit_eq_mod mod_add_right_eq)

lemma uint_of_int_minus:
  "uint (w :: 64 word) \<le> b \<Longrightarrow> b < 2 ^ 64 \<Longrightarrow> uint (word_of_int b - w) = b - uint w"
proof -
  have "0 \<le> b - uint w" "b - uint w < 2 ^ 64" if "uint w \<le> b" "b < 2 ^ 64"
    using that uint_ge_0 [of w] by linarith+
  then show "uint w \<le> b \<Longrightarrow> b < 2 ^ 64 \<Longrightarrow> uint (word_of_int b - w) = b - uint w"
    by (simp add: uint_word_ariths uint_word_of_int take_bit_eq_mod mod_diff_left_eq)
qed

lemma word_less_add_nonzero:
  fixes a b :: "64 word"
  assumes "b \<noteq> 0" and "unat a + unat b < 2 ^ 64"
  shows "a < a + b"
proof -
  have "unat (a + b) = unat a + unat b"
    using assms(2) unat_add_lem [of a b] by simp
  moreover have "0 < unat b" using assms(1) by (simp add: unat_gt_0)
  ultimately show ?thesis by (simp add: word_less_nat_alt)
qed

section \<open>Request numbers\<close>

lemma apart_update:
  assumes "apart qs" and "i < length qs"
    and "status q \<noteq> QUEITEM_FREE \<Longrightarrow>
           \<forall>j < length qs. j \<noteq> i \<longrightarrow> status (qs ! j) \<noteq> QUEITEM_FREE \<longrightarrow> rqnum (qs ! j) \<noteq> rqnum q"
  shows "apart (qs[i := q])"
  unfolding apart_def
proof (intro allI impI)
  fix a b
  assume a: "a < length (qs[i := q])" and b: "b < length (qs[i := q])" and ne: "a \<noteq> b"
    and sa: "status (qs[i := q] ! a) \<noteq> QUEITEM_FREE" and sb: "status (qs[i := q] ! b) \<noteq> QUEITEM_FREE"
  consider "a = i" | "b = i" | "a \<noteq> i" "b \<noteq> i" by blast
  then show "rqnum (qs[i := q] ! a) \<noteq> rqnum (qs[i := q] ! b)"
  proof cases
    case 1
    with a b ne sa sb assms(2) assms(3) show ?thesis by (auto simp add: nth_list_update)
  next
    case 2
    with a b ne sa sb assms(2) assms(3) show ?thesis by (auto simp add: nth_list_update)
  next
    case 3
    with a b ne sa sb assms(1) show ?thesis by (simp add: apart_def)
  qed
qed

lemma apart_slot:
  "apart qs \<Longrightarrow> i < length qs \<Longrightarrow> status (qs ! i) \<noteq> QUEITEM_FREE \<Longrightarrow>
   \<forall>j < length qs. j \<noteq> i \<longrightarrow> status (qs ! j) \<noteq> QUEITEM_FREE \<longrightarrow> rqnum (qs ! j) \<noteq> rqnum (qs ! i)"
  unfolding apart_def by blast

text \<open>The slot keeps its number and its state.\<close>

lemma numbered_of_same:
  assumes "numbered_of qs n rs ws" and "i < length qs"
    and "status q = status (qs ! i)" and "rqnum q = rqnum (qs ! i)"
    and "status q = QUEITEM_READY \<longrightarrow> buffer q = buffer (qs ! i) \<and> readyb q = readyb (qs ! i)"
  shows "numbered_of (qs[i := q]) n rs ws"
proof -
  have "slot_numbered n rs ws (qs ! i)"
    using assms(1,2) by (simp add: numbered_of_def list_all_nth)
  with assms(3-5) have "slot_numbered n rs ws q" by (simp add: slot_numbered_def)
  moreover have "apart (qs[i := q])"
    using assms(1,2) apart_slot [of qs i] assms(3,4)
    by (intro apart_update) (simp_all add: numbered_of_def)
  ultimately show ?thesis using assms(1) by (simp add: numbered_of_def list_all_update)
qed

text \<open>The slot is released.\<close>

lemma numbered_of_free:
  assumes "numbered_of qs n rs ws" and "i < length qs" and "status q = QUEITEM_FREE"
  shows "numbered_of (qs[i := q]) n rs ws"
proof -
  have "slot_numbered n rs ws q" using assms(3) by (simp add: slot_numbered_def)
  moreover have "apart (qs[i := q])"
    using assms by (intro apart_update) (simp_all add: numbered_of_def)
  ultimately show ?thesis using assms(1) by (simp add: numbered_of_def list_all_update)
qed

text \<open>The read of the slot is complete and its block is logged.\<close>

lemma numbered_of_ready:
  assumes "numbered_of qs n rs ws" and "i < length qs"
    and "status (qs ! i) = QUEITEM_INPROGRESS" and "status q = QUEITEM_READY"
    and "rqnum q = rqnum (qs ! i)" and "r = (rqnum q, buffer q, readyb q)"
  shows "numbered_of (qs[i := q]) n (rs @ [r]) ws"
proof -
  let ?rs = "rs @ [r]"
  have si: "slot_numbered n rs ws (qs ! i)"
    using assms(1,2) by (simp add: numbered_of_def list_all_nth)
  with assms(3,5) have new: "0 < rqnum q" "rqnum q \<le> n" "rqnum q \<notin> w_source ` set ws"
    "rqnum q \<notin> fst ` set rs"
    by (simp_all add: slot_numbered_def)
  have logs: "logs_numbered n ?rs ws"
    using assms(1,6) new by (auto simp add: numbered_of_def logs_numbered_def)
  have ap: "apart (qs[i := q])"
    using assms(1,2) apart_slot [of qs i] assms(3,5)
    by (intro apart_update) (simp_all add: numbered_of_def)
  have q: "slot_numbered n ?rs ws q" using new assms(4,6) by (simp add: slot_numbered_def)
  have others: "slot_numbered n ?rs ws (qs ! j)" if "j < length qs" "j \<noteq> i" for j
  proof -
    have sj: "slot_numbered n rs ws (qs ! j)"
      using assms(1) that(1) by (simp add: numbered_of_def list_all_nth)
    have "rqnum (qs ! j) \<noteq> rqnum q" if "status (qs ! j) \<noteq> QUEITEM_FREE"
      using apart_slot [of qs i] assms(1,2,3,5) \<open>j < length qs\<close> \<open>j \<noteq> i\<close> that
      by (simp add: numbered_of_def)
    with sj assms(6) show ?thesis by (auto simp add: slot_numbered_def)
  qed
  have "list_all (slot_numbered n ?rs ws) (qs[i := q])"
    unfolding list_all_length
  proof (intro allI impI)
    fix j assume "j < length (qs[i := q])"
    with q others [of j] show "slot_numbered n ?rs ws (qs[i := q] ! j)"
      by (cases "j = i") simp_all
  qed
  with logs ap show ?thesis by (simp add: numbered_of_def)
qed

text \<open>A free slot takes the next number.\<close>

lemma numbered_of_submit:
  assumes "numbered_of qs n rs ws" and "i < length qs"
    and "status q = QUEITEM_INPROGRESS" and "rqnum q = n + 1"
  shows "numbered_of (qs[i := q]) (n + 1) rs ws"
proof -
  have n0: "0 \<le> n" using assms(1) by (simp add: numbered_of_def logs_numbered_def)
  have logs: "logs_numbered (n + 1) rs ws"
    using assms(1) by (auto simp add: numbered_of_def logs_numbered_def)
  have bound: "rqnum (qs ! j) \<le> n" if "j < length qs" "status (qs ! j) \<noteq> QUEITEM_FREE" for j
    using assms(1) that list_all_nth [of "slot_numbered n rs ws" qs j]
    by (simp add: numbered_of_def slot_numbered_def)
  have ap: "apart (qs[i := q])"
  proof (rule apart_update)
    show "\<forall>j<length qs. j \<noteq> i \<longrightarrow> status (qs ! j) \<noteq> QUEITEM_FREE \<longrightarrow> rqnum (qs ! j) \<noteq> rqnum q"
      using bound assms(4) by fastforce
  qed (use assms(1,2) in \<open>simp_all add: numbered_of_def\<close>)
  have fresh: "n + 1 \<notin> w_source ` set ws" "n + 1 \<notin> fst ` set rs"
    using assms(1) by (fastforce simp add: numbered_of_def logs_numbered_def)+
  have q: "slot_numbered (n + 1) rs ws q"
    using assms(3,4) n0 fresh by (simp add: slot_numbered_def)
  have "list_all (slot_numbered (n + 1) rs ws) qs"
    using assms(1) by (auto simp add: numbered_of_def list_all_iff slot_numbered_def)
  with logs ap q show ?thesis by (simp add: numbered_of_def list_all_update)
qed

text \<open>The block of a ready slot is handed to a write.\<close>

lemma numbered_of_handoff:
  assumes "numbered_of qs n rs ws" and "j < length qs"
    and "status (qs ! j) = QUEITEM_READY" and "status q = QUEITEM_FREE"
    and "w_source w = rqnum (qs ! j)" and "w_block w = (buffer (qs ! j), readyb (qs ! j))"
  shows "numbered_of (qs[j := q]) n rs (ws @ [w])"
proof -
  let ?ws = "ws @ [w]"
  have sj: "slot_numbered n rs ws (qs ! j)"
    using assms(1,2) by (simp add: numbered_of_def list_all_nth)
  with assms(3,5,6) have new: "w_source w \<notin> w_source ` set ws" "(w_source w, w_block w) \<in> set rs"
    by (simp_all add: slot_numbered_def)
  have logs: "logs_numbered n rs ?ws"
    using assms(1) new by (auto simp add: numbered_of_def logs_numbered_def)
  have ap: "apart (qs[j := q])"
    using assms(1,2,4) by (intro apart_update) (simp_all add: numbered_of_def)
  have q: "slot_numbered n rs ?ws q" using assms(4) by (simp add: slot_numbered_def)
  have others: "slot_numbered n rs ?ws (qs ! k)" if "k < length qs" "k \<noteq> j" for k
  proof -
    have sk: "slot_numbered n rs ws (qs ! k)"
      using assms(1) that(1) by (simp add: numbered_of_def list_all_nth)
    have "rqnum (qs ! k) \<noteq> w_source w" if "status (qs ! k) \<noteq> QUEITEM_FREE"
      using apart_slot [of qs j] assms(1,2,3,5) \<open>k < length qs\<close> \<open>k \<noteq> j\<close> that
      by (simp add: numbered_of_def)
    with sk show ?thesis by (auto simp add: slot_numbered_def)
  qed
  have "list_all (slot_numbered n rs ?ws) (qs[j := q])"
    unfolding list_all_length
  proof (intro allI impI)
    fix k assume "k < length (qs[j := q])"
    with q others [of k] show "slot_numbered n rs ?ws (qs[j := q] ! k)"
      by (cases "k = j") simp_all
  qed
  with logs ap show ?thesis by (simp add: numbered_of_def)
qed

subsection \<open>The steps keep the numbering\<close>

lemma numbered_retcode:
  "numbered s \<Longrightarrow> i < length (ique s) \<Longrightarrow>
   numbered (s\<lparr>ique := (ique s)[i := (ique s ! i)\<lparr>retcode := rc\<rparr>]\<rparr>)"
  by (simp add: numbered_def numbered_of_same)

lemma numbered_release_input:
  "numbered s \<Longrightarrow> i < length (ique s) \<Longrightarrow> numbered (release_input i s)"
  by (simp add: numbered_def release_input_def Let_def numbered_of_free)

lemma numbered_resubmit_read:
  assumes "numbered s" and "i < length (ique s)"
  shows "post numbered numbered (resubmit_read p e i s)"
  using assms by (simp add: numbered_def resubmit_read_def Let_def numbered_of_same)

lemma numbered_read_completed:
  assumes "numbered s" and "i < length (ique s)" and "status (ique s ! i) = QUEITEM_INPROGRESS"
  shows "post numbered numbered (read_completed p e i s)"
  using assms
  by (simp add: numbered_def read_completed_def resubmit_read_def release_input_def Let_def
        numbered_of_same numbered_of_free numbered_of_ready)

lemma numbered_submit_read:
  assumes "numbered s" and "i < length (ique s)"
  shows "post numbered numbered (submit_read p e i s)"
  using assms
  by (simp add: numbered_def submit_read_def Let_def numbered_of_same numbered_of_submit
        split: prod.splits)

lemma numbered_input_slot:
  assumes "numbered s" and "i < length (ique s)"
  shows "post numbered numbered (input_slot p e i s)"
proof (cases "status (ique s ! i)")
  case QUEITEM_FREE
  with assms numbered_submit_read [OF assms, of p e] show ?thesis
    by (simp add: input_slot_def)
next
  case QUEITEM_READY
  with assms show ?thesis by (simp add: input_slot_def)
next
  case QUEITEM_INPROGRESS
  let ?s1 = "s\<lparr>ique := (ique s)[i := (ique s ! i)\<lparr>retcode := aio_error_i e i\<rparr>]\<rparr>"
  have r1: "numbered ?s1" using assms by (rule numbered_retcode)
  have l1: "i < length (ique ?s1)" using assms(2) by simp
  have st1: "status (ique ?s1 ! i) = QUEITEM_INPROGRESS"
    using assms(2) QUEITEM_INPROGRESS by simp
  have a: "post numbered numbered (read_completed p e i ?s1)"
    using r1 l1 st1 by (rule numbered_read_completed)
  have b: "numbered (release_input i
      (?s1\<lparr>ique := (ique ?s1)[i := (ique ?s1 ! i)\<lparr>retcode := aio_return_i e i\<rparr>]\<rparr>))"
    by (rule numbered_release_input, rule numbered_retcode) (use r1 l1 in simp_all)
  consider "aio_error_i e i = 0" | "aio_error_i e i = EINPROGRESS" | "aio_error_i e i = ECANCELED"
    | "aio_error_i e i \<noteq> 0" "aio_error_i e i \<noteq> EINPROGRESS" "aio_error_i e i \<noteq> ECANCELED"
    by blast
  then show ?thesis
  proof cases
    case 1
    with QUEITEM_INPROGRESS a show ?thesis by (simp add: input_slot_def Let_def)
  next
    case 2
    with QUEITEM_INPROGRESS r1 show ?thesis
      by (simp add: input_slot_def Let_def EINPROGRESS_def)
  next
    case 3
    with QUEITEM_INPROGRESS b show ?thesis
      by (simp add: input_slot_def Let_def EINPROGRESS_def ECANCELED_def)
  next
    case 4
    with QUEITEM_INPROGRESS r1 show ?thesis by (simp add: input_slot_def Let_def)
  qed
qed

lemma numbered_handoff:
  assumes "numbered s" and "j < length (ique s)" and "status (ique s ! j) = QUEITEM_READY"
  shows "post numbered numbered (handoff p e i j s)"
  using assms
  by (simp add: handoff_def Let_def numbered_def numbered_of_handoff w_block_def)

lemma numbered_output_probe:
  assumes "numbered s"
  shows "post numbered numbered (output_probe e i s)"
  using assms by (simp add: output_probe_def release_output_def Let_def numbered_def)

lemma numbered_scan:
  assumes "counted p s \<and> numbered s"
  shows "post (\<lambda>s. counted p s \<and> numbered s) numbered (scan p e s)"
proof (rule scan_post)
  fix i s assume i: "i < imaxqsize p" and inv: "counted p s \<and> numbered s"
  then have len: "i < length (ique s)" by (simp add: counted_def)
  from inv have c: "counted p s" by simp
  have "post (counted p) (\<lambda>s. True) (input_slot p e i s)"
    using counted_input_slot [OF c i] by (intro postI) simp_all
  moreover have "post numbered numbered (input_slot p e i s)"
    using inv len by (simp add: numbered_input_slot)
  ultimately show "post (\<lambda>s. counted p s \<and> numbered s) numbered (input_slot p e i s)"
    by (rule post_mono [OF post_conj]) simp_all
next
  fix i j s
  assume h: "i < omaxqsize p" "j < imaxqsize p" "status (ique s ! j) = QUEITEM_READY"
    "status (oque s ! i) \<noteq> QUEITEM_INPROGRESS" and inv: "counted p s \<and> numbered s"
  then have len: "j < length (ique s)" by (simp add: counted_def)
  have "post (counted p) (\<lambda>s. True) (handoff p e i j s)"
    using inv h by (simp add: counted_handoff)
  moreover have "post numbered numbered (handoff p e i j s)"
    using inv len h(3) by (simp add: numbered_handoff)
  ultimately show "post (\<lambda>s. counted p s \<and> numbered s) numbered (handoff p e i j s)"
    by (rule post_mono [OF post_conj]) simp_all
next
  fix i s
  assume h: "i < omaxqsize p" "status (oque s ! i) = QUEITEM_INPROGRESS"
    and inv: "counted p s \<and> numbered s"
  from inv have c: "counted p s" by simp
  have "post (counted p) (\<lambda>s. True) (output_probe e i s)"
    using counted_output_probe [OF c h] by (intro postI) simp_all
  moreover have "post numbered numbered (output_probe e i s)"
    using inv by (simp add: numbered_output_probe)
  ultimately show "post (\<lambda>s. counted p s \<and> numbered s) numbered (output_probe e i s)"
    by (rule post_mono [OF post_conj]) simp_all
qed (use assms in simp)

lemma numbered_init: "numbered (init_state p ifd ofd)"
  by (simp add: numbered_def numbered_of_def logs_numbered_def apart_def slot_numbered_def
        init_state_def new_item_def list_all_iff)

lemma numbered_last_state: "numbered (last_state (main_loop p es (init_state p ifd ofd)))"
proof -
  have "loop_post (\<lambda>s. counted p s \<and> numbered s) numbered (main_loop p es (init_state p ifd ofd))"
    by (rule main_loop_post) (simp_all add: numbered_scan numbered_init counted_init)
  then show ?thesis
    by (cases "main_loop p es (init_state p ifd ofd)") simp_all
qed

subsection \<open>What the numbering says of the logged writes\<close>

lemma numbered_block:
  assumes "numbered s" and "w \<in> set (aio_writes s)"
  shows "block_of s (w_source w) = Some (w_block w)"
  using assms
  by (simp add: numbered_def numbered_of_def logs_numbered_def block_of_def)

lemma numbered_sources_differ:
  assumes "numbered s" and "j < k" and "k < length (aio_writes s)"
  shows "w_source (aio_writes s ! j) \<noteq> w_source (aio_writes s ! k)"
proof -
  have "distinct (map w_source (aio_writes s))"
    using assms(1) by (simp add: numbered_def numbered_of_def logs_numbered_def)
  with assms(2,3) nth_eq_iff_index_eq [of "map w_source (aio_writes s)" j k] show ?thesis by simp
qed

lemma numbered_source_bounds:
  assumes "numbered s" and "w \<in> set (aio_writes s)"
  shows "0 < w_source w \<and> w_source w \<le> irqnum s"
  using assms
  by (fastforce simp add: numbered_def numbered_of_def logs_numbered_def)

lemma block_offset_small:
  assumes "0 < a" and "0 < b" and "a * b \<le> 2 ^ 64"
  shows "uint ((word_of_int a - 1) * word_of_int b :: 64 word) = (a - 1) * b"
proof -
  have "(a - 1) * b < a * b" using assms(2) by (simp add: algebra_simps)
  with assms(3) have lt: "(a - 1) * b < 2 ^ 64" by linarith
  have ge: "0 \<le> (a - 1) * b" using assms(1,2) by simp
  have "(word_of_int a - 1) * word_of_int b = ((word_of_int a - word_of_int 1) * word_of_int b :: 64 word)"
    by (simp only: word_of_int_1)
  also have "\<dots> = word_of_int ((a - 1) * b)"
    by (simp only: wi_hom_sub wi_hom_mult)
  finally show ?thesis by (simp only: uint_of_int_small [OF ge lt])
qed

lemma block_offsets_differ:
  assumes "0 < a" and "0 < c" and "a \<noteq> c" and "0 < b"
    and "a * b \<le> 2 ^ 64" and "c * b \<le> 2 ^ 64"
  shows "(word_of_int a - 1) * word_of_int b \<noteq> ((word_of_int c - 1) * word_of_int b :: 64 word)"
proof
  assume "(word_of_int a - 1) * word_of_int b = ((word_of_int c - 1) * word_of_int b :: 64 word)"
  then have "uint ((word_of_int a - 1) * word_of_int b :: 64 word) =
      uint ((word_of_int c - 1) * word_of_int b :: 64 word)" by simp
  then have "(a - 1) * b = (c - 1) * b"
    using block_offset_small [OF assms(1,4,5)] block_offset_small [OF assms(2,4,6)] by simp
  with assms(3,4) show False by simp
qed

lemma blocks_apart:
  fixes x y :: "64 word"
  assumes "0 < a" and "0 < c" and "a \<noteq> c" and "0 < b"
    and "a * b \<le> 2 ^ 64" and "c * b \<le> 2 ^ 64"
    and "uint x \<le> b" and "uint y \<le> b"
  shows "uint ((word_of_int a - 1) * word_of_int b :: 64 word) + uint x \<le>
           uint ((word_of_int c - 1) * word_of_int b :: 64 word) \<or>
         uint ((word_of_int c - 1) * word_of_int b :: 64 word) + uint y \<le>
           uint ((word_of_int a - 1) * word_of_int b :: 64 word)"
proof -
  have *: "(m - 1) * b + z \<le> (n - 1) * b" if "m < n" "z \<le> b" for m n z :: int
  proof -
    from that(1) have "m \<le> n - 1" by simp
    with assms(4) have "m * b \<le> (n - 1) * b" by (simp add: mult_right_mono)
    moreover have "(m - 1) * b + z \<le> m * b" using that(2) by (simp add: algebra_simps)
    ultimately show ?thesis by linarith
  qed
  from assms(3) consider "a < c" | "c < a" by linarith
  then show ?thesis
  proof cases
    case 1
    from * [OF 1 assms(7)] have "uint ((word_of_int a - 1) * word_of_int b :: 64 word) + uint x \<le>
        uint ((word_of_int c - 1) * word_of_int b :: 64 word)"
      by (simp only: block_offset_small [OF assms(1,4,5)] block_offset_small [OF assms(2,4,6)])
    then show ?thesis by (rule disjI1)
  next
    case 2
    from * [OF 2 assms(8)] have "uint ((word_of_int c - 1) * word_of_int b :: 64 word) + uint y \<le>
        uint ((word_of_int a - 1) * word_of_int b :: 64 word)"
      by (simp only: block_offset_small [OF assms(1,4,5)] block_offset_small [OF assms(2,4,6)])
    then show ?thesis by (rule disjI2)
  qed
qed

subsection \<open>Every complete block is accounted for\<close>










lemma main_loop_Left_done: "main_loop p es s = Left s' \<Longrightarrow> all_done s'"
proof (induction es arbitrary: s)
  case Nil
  then show ?case by simp
next
  case (Cons e es)
  show ?case
  proof (cases "scan p e s")
    case (Inl a)
    with Cons.prems show ?thesis by (cases a) simp
  next
    case (Inr s1)
    with Cons show ?thesis by (cases "all_done s1") simp_all
  qed
qed


section \<open>Termination once the environment settles\<close>

lemma for_upt_post:
  assumes "\<And>m x. m0 \<le> m \<Longrightarrow> m < n \<Longrightarrow> I m x \<Longrightarrow> post (I (Suc m)) L (body m x)"
    and "I m0 x" and "m0 \<le> n"
  shows "post (I n) L (for_slots body [m0..<n] x)"
  using assms
proof (induction "n - m0" arbitrary: m0 x)
  case 0
  then show ?case by simp
next
  case (Suc d)
  then have lt: "m0 < n" by simp
  have b: "post (I (Suc m0)) L (body m0 x)"
    using Suc.prems(1) [of m0 x] Suc.prems(2) lt by simp
  show ?case
  proof (cases "body m0 x")
    case (Inl a)
    with b lt show ?thesis by (cases a) (simp add: upt_conv_Cons)
  next
    case (Inr x')
    with b have I': "I (Suc m0) x'" by simp
    have d: "d = n - Suc m0" using Suc.hyps(2) by simp
    have "post (I n) L (for_slots body [Suc m0..<n] x')"
    proof (rule Suc.hyps(1) [OF d _ I'])
      show "Suc m0 \<le> n" using lt by simp
    next
      fix m y assume "Suc m0 \<le> m" "m < n" "I m y"
      then show "post (I (Suc m)) L (body m y)" using Suc.prems(1) [of m y] by simp
    qed
    with Inr lt show ?thesis by (simp add: upt_conv_Cons)
  qed
qed

lemma sum_list_map_update:
  fixes f :: "'a \<Rightarrow> nat"
  shows "i < length xs \<Longrightarrow> sum_list (map f (xs[i := x])) + f (xs ! i) = sum_list (map f xs) + f x"
proof (induction xs arbitrary: i)
  case Nil
  then show ?case by simp
next
  case (Cons a xs)
  show ?case
  proof (cases i)
    case 0
    then show ?thesis by simp
  next
    case (Suc k)
    with Cons.prems have "k < length xs" by simp
    from Cons.IH [OF this] Suc show ?thesis by simp
  qed
qed

lemma sum_list_weight_zero:
  "sum_list (map weight_in qs) = 0 \<longleftrightarrow> all_free qs"
  by (induction qs) (auto simp add: all_free_def weight_in_def split: qstatus.splits)

lemma sum_list_weight_out_zero:
  "sum_list (map weight_out qs) = 0 \<longleftrightarrow> all_free qs"
  by (induction qs) (auto simp add: all_free_def weight_out_def)

lemma pending_zero_done:
  assumes "counted p s" and "eof s" and "pending s = 0"
  shows "all_done s"
  using assms busy_zero [of "ique s"] busy_zero [of "oque s"]
    sum_list_weight_zero [of "ique s"] sum_list_weight_out_zero [of "oque s"]
  by (simp add: pending_def counted_def all_done_def)

lemma sum_list_weight_in_le: "sum_list (map weight_in qs) \<le> 3 * length qs"
  by (induction qs) (auto simp add: weight_in_def split: qstatus.splits)

lemma sum_list_weight_out_le: "sum_list (map weight_out qs) \<le> length qs"
  by (induction qs) (auto simp add: weight_out_def)

lemma pending_le: "counted p s \<Longrightarrow> pending s \<le> 3 * imaxqsize p + omaxqsize p"
  using sum_list_weight_in_le [of "ique s"] sum_list_weight_out_le [of "oque s"]
  by (simp add: pending_def counted_def)

lemma input_slot_settles:
  assumes "i < length (ique s)"
    and "status (ique s ! i) = QUEITEM_INPROGRESS \<longrightarrow> read_settles p e i (ique s ! i)"
    and "fst (posix_memalign e i) = 0" and "aio_read e i \<noteq> - 1"
  shows "post (in_step_post i s) (\<lambda>s. False) (input_slot p e i s)"
proof (cases "status (ique s ! i)")
  case QUEITEM_FREE
  obtain a where "posix_memalign e i = (0, a)"
    using assms(3) by (cases "posix_memalign e i") simp
  with QUEITEM_FREE assms(1,4) show ?thesis
    by (simp add: input_slot_def submit_read_def Let_def in_step_post_def)
next
  case QUEITEM_READY
  with assms(1) show ?thesis
    by (simp add: input_slot_def in_step_post_def)
next
  case QUEITEM_INPROGRESS
  with assms(2) consider
      (cancel) "aio_error_i e i = ECANCELED"
    | (eod) "aio_error_i e i = 0" "aio_return_i e i = 0"
    | (full) "aio_error_i e i = 0" "aio_return_i e i \<noteq> 0"
        "readyb (ique s ! i) + word_of_int (aio_return_i e i) = word_of_int (blksize p)"
    by (auto simp add: read_settles_def)
  then show ?thesis
  proof cases
    case cancel
    with QUEITEM_INPROGRESS assms(1) show ?thesis
      by (simp add: input_slot_def release_input_def Let_def in_step_post_def
            ECANCELED_def EINPROGRESS_def weight_in_def)
  next
    case eod
    with QUEITEM_INPROGRESS assms(1) show ?thesis
      by (simp add: input_slot_def read_completed_def release_input_def Let_def in_step_post_def
            weight_in_def)
  next
    case full
    with QUEITEM_INPROGRESS assms(1) show ?thesis
      by (simp add: input_slot_def read_completed_def Let_def in_step_post_def weight_in_def)
  qed
qed

lemma list_eq_update:
  "length ys = length xs \<Longrightarrow> (\<forall>k. k \<noteq> i \<longrightarrow> ys ! k = xs ! k) \<Longrightarrow> ys = xs[i := ys ! i]"
proof (rule nth_equalityI)
  show "length ys = length xs \<Longrightarrow> length ys = length (xs[i := ys ! i])" by simp
next
  fix k assume "length ys = length xs" "\<forall>k. k \<noteq> i \<longrightarrow> ys ! k = xs ! k" "k < length ys"
  then show "ys ! k = xs[i := ys ! i] ! k"
    by (cases "k = i") simp_all
qed

lemma in_pass_inv_step:
  assumes "in_pass_inv s0 m s" and "in_step_post m s s'" and "m < length (ique s0)"
  shows "in_pass_inv s0 (Suc m) s'"
proof -
  have len: "length (ique s') = length (ique s)" "length (ique s) = length (ique s0)"
    and same: "\<forall>k. k \<noteq> m \<longrightarrow> ique s' ! k = ique s ! k"
    and m0: "ique s ! m = ique s0 ! m"
    using assms(1,2) by (simp_all add: in_pass_inv_def in_step_post_def)
  have upd: "ique s' = (ique s)[m := ique s' ! m]"
    using len(1) same by (rule list_eq_update)
  have sum: "sum_list (map weight_in (ique s')) + weight_in (ique s ! m) =
      sum_list (map weight_in (ique s)) + weight_in (ique s' ! m)"
    using sum_list_map_update [of m "ique s" weight_in "ique s' ! m"] upd assms(3) len(2) by simp
  have frame: "oque s' = oque s0" "length (ique s') = length (ique s0)" "eof s0 \<longrightarrow> eof s'"
    "\<forall>k. Suc m \<le> k \<longrightarrow> ique s' ! k = ique s0 ! k"
    using assms(1,2) by (simp_all add: in_pass_inv_def in_step_post_def)
  have drain: "(\<forall>k<Suc m. status (ique s' ! k) \<noteq> QUEITEM_INPROGRESS) \<and>
        sum_list (map weight_in (ique s')) \<le> sum_list (map weight_in (ique s0)) \<and>
        ((\<exists>k<Suc m. status (ique s0 ! k) = QUEITEM_INPROGRESS) \<longrightarrow>
           sum_list (map weight_in (ique s')) < sum_list (map weight_in (ique s0)))" if e0: "eof s0"
  proof -
    have e: "eof s" using assms(1) e0 by (simp add: in_pass_inv_def)
    have old: "\<forall>k<m. status (ique s ! k) \<noteq> QUEITEM_INPROGRESS"
      "sum_list (map weight_in (ique s)) \<le> sum_list (map weight_in (ique s0))"
      "(\<exists>k<m. status (ique s0 ! k) = QUEITEM_INPROGRESS) \<longrightarrow>
           sum_list (map weight_in (ique s)) < sum_list (map weight_in (ique s0))"
      using assms(1) e0 by (simp_all add: in_pass_inv_def)
    have new: "status (ique s' ! m) \<noteq> QUEITEM_INPROGRESS"
      "weight_in (ique s' ! m) \<le> weight_in (ique s ! m)"
      "status (ique s ! m) = QUEITEM_INPROGRESS \<longrightarrow> weight_in (ique s' ! m) < weight_in (ique s ! m)"
      using assms(2) e by (simp_all add: in_step_post_def)
    have 1: "\<forall>k<Suc m. status (ique s' ! k) \<noteq> QUEITEM_INPROGRESS"
      using old(1) new(1) same by (auto simp add: less_Suc_eq)
    have 2: "sum_list (map weight_in (ique s')) \<le> sum_list (map weight_in (ique s))"
      using sum new(2) by linarith
    have 3: "sum_list (map weight_in (ique s')) < sum_list (map weight_in (ique s))"
      if "status (ique s0 ! m) = QUEITEM_INPROGRESS"
      using sum new(3) that m0 by simp
    have 4: "sum_list (map weight_in (ique s')) < sum_list (map weight_in (ique s0))"
      if "\<exists>k<Suc m. status (ique s0 ! k) = QUEITEM_INPROGRESS"
    proof (cases "status (ique s0 ! m) = QUEITEM_INPROGRESS")
      case True
      with 3 old(2) show ?thesis by linarith
    next
      case False
      with that have "\<exists>k<m. status (ique s0 ! k) = QUEITEM_INPROGRESS"
        by (auto simp add: less_Suc_eq)
      with old(3) have "sum_list (map weight_in (ique s)) < sum_list (map weight_in (ique s0))"
        by blast
      with 2 show ?thesis by linarith
    qed
    from 1 2 old(2) 4 show ?thesis by auto
  qed
  from frame drain show ?thesis unfolding in_pass_inv_def by blast
qed

lemma settles_read:
  assumes "settles p e s" and "i < length (ique s)"
  shows "(status (ique s ! i) = QUEITEM_INPROGRESS \<longrightarrow> read_settles p e i (ique s ! i)) \<and>
         fst (posix_memalign e i) = 0 \<and> aio_read e i \<noteq> - 1"
  using assms by (simp add: settles_def list_all_iff)

lemma settles_write:
  assumes "settles p e s" and "i < length (oque s)"
  shows "(status (oque s ! i) = QUEITEM_INPROGRESS \<longrightarrow> write_settles e i) \<and> aio_write e i \<noteq> - 1"
  using assms by (simp add: settles_def list_all_iff)

lemma input_pass_settles:
  assumes "settles p e s" and "length (ique s) = imaxqsize p"
  shows "post (in_pass_inv s (imaxqsize p)) (\<lambda>s. False) (input_pass p e s)"
  unfolding input_pass_def
proof (rule for_upt_post)
  show "in_pass_inv s 0 s" by (simp add: in_pass_inv_def)
next
  show "0 \<le> imaxqsize p" by simp
next
  fix m x assume m: "m < imaxqsize p" and inv: "in_pass_inv s m x"
  then have xm: "ique x ! m = ique s ! m" and len: "length (ique x) = length (ique s)"
    by (simp_all add: in_pass_inv_def)
  have "post (in_step_post m x) (\<lambda>s. False) (input_slot p e m x)"
    using settles_read [OF assms(1), of m] m assms(2) xm len
    by (intro input_slot_settles) simp_all
  then show "post (in_pass_inv s (Suc m)) (\<lambda>s. False) (input_slot p e m x)"
    using in_pass_inv_step [OF inv _] m assms(2)
    by (cases "input_slot p e m x") (auto simp add: post_def)
qed

lemma weight_le_sum: "i < length xs \<Longrightarrow> (f :: 'a \<Rightarrow> nat) (xs ! i) \<le> sum_list (map f xs)"
  by (simp add: member_le_sum_list)

lemma sum_list_map_update_eq:
  fixes f :: "'a \<Rightarrow> nat"
  assumes "i < length xs"
  shows "sum_list (map f (xs[i := x])) = sum_list (map f xs) - f (xs ! i) + f x"
  using sum_list_map_update [OF assms, of f x] weight_le_sum [OF assms, of f] by linarith

lemma output_probe_settles:
  assumes "i < length (oque s)" and "status (oque s ! i) = QUEITEM_INPROGRESS"
    and "write_settles e i"
  shows "post (out_step_post p e i j s) (\<lambda>s. False) (output_probe e i s)"
proof -
  have w: "weight_out (oque s ! i) = 1" using assms(2) by (simp add: weight_out_def)
  with weight_le_sum [OF assms(1), of weight_out]
  have pos: "1 \<le> sum_list (map weight_out (oque s))" by simp
  from assms(3) consider "aio_error_o e i = 0" | "aio_error_o e i = ECANCELED"
    | "aio_error_o e i = EFBIG"
    by (auto simp add: write_settles_def)
  then show ?thesis
  proof cases
    case 1
    with assms(1,2) w pos show ?thesis
      by (auto simp add: output_probe_def release_output_def Let_def out_step_post_def pending_def
            sum_list_map_update_eq weight_out_def EFBIG_def)
  next
    case 2
    with assms(1,2) w pos show ?thesis
      by (auto simp add: output_probe_def release_output_def Let_def out_step_post_def pending_def
            sum_list_map_update_eq weight_out_def ECANCELED_def EINPROGRESS_def EFBIG_def)
  next
    case 3
    with assms(1,2) w pos show ?thesis
      by (auto simp add: output_probe_def release_output_def Let_def out_step_post_def pending_def
            sum_list_map_update_eq weight_out_def ECANCELED_def EINPROGRESS_def EFBIG_def)
  qed
qed

lemma handoff_settles:
  assumes "i < length (oque s)" and "j < length (ique s)"
    and "status (ique s ! j) = QUEITEM_READY" and "status (oque s ! i) = QUEITEM_FREE"
    and "aio_write e i \<noteq> - 1"
  shows "post (\<lambda>s'. s' = s \<and> \<not> matchable p s j \<or> handed i s s') (\<lambda>s. False) (handoff p e i j s)"
proof (cases "\<not> oseekable p \<and> rqnum (ique s ! j) \<noteq> orqnum s + 1")
  case True
  then show ?thesis by (simp add: handoff_def matchable_def)
next
  case False
  then obtain s' where h: "handoff p e i j s = Inr s'"
    using assms(5) by (simp add: handoff_def Let_def)
  have wi: "weight_in (ique s ! j) = 2" using assms(3) by (simp add: weight_in_def)
  with weight_le_sum [OF assms(2), of weight_in]
  have pos: "2 \<le> sum_list (map weight_in (ique s))" by simp
  have wo: "weight_out (oque s ! i) = 0" using assms(4) by (simp add: weight_out_def)
  from h False assms(5) obtain qi qo where
    iq: "ique s' = (ique s)[j := qi]" "status qi = QUEITEM_FREE"
    and oq: "oque s' = (oque s)[i := qo]" "status qo = QUEITEM_INPROGRESS"
    and fr: "eof s' = eof s" "frees s' = frees s"
    by (auto simp add: handoff_def Let_def split: if_splits)
  have 1: "status (oque s' ! i) = QUEITEM_INPROGRESS" using oq assms(1) by simp
  have 2: "length (ique s') = length (ique s)" "length (oque s') = length (oque s)"
    using iq oq by simp_all
  have 3: "\<forall>k. k \<noteq> i \<longrightarrow> oque s' ! k = oque s ! k" using oq by simp
  have 4: "status (ique s' ! k) = QUEITEM_INPROGRESS \<longrightarrow> status (ique s ! k) = QUEITEM_INPROGRESS" for k
    using iq assms(2) by (cases "k = j") simp_all
  have "sum_list (map weight_in (ique s')) = sum_list (map weight_in (ique s)) - 2"
    using iq wi assms(2) by (simp add: sum_list_map_update_eq weight_in_def)
  moreover have "sum_list (map weight_out (oque s')) = sum_list (map weight_out (oque s)) + 1"
    using oq wo assms(1) by (simp add: sum_list_map_update_eq weight_out_def)
  ultimately have 5: "pending s' < pending s" using pos by (simp add: pending_def)
  from 1 2 3 4 5 fr have "handed i s s'" by (simp add: handed_def)
  with h show ?thesis by simp
qed

lemma match_loop_settles:
  assumes "length (ique s) = imaxqsize p" and "i < length (oque s)"
    and "status (oque s ! i) = QUEITEM_FREE" and "aio_write e i \<noteq> - 1"
  shows "post (\<lambda>(j', s').
             s' = s \<and> \<not> (\<exists>k. j \<le> k \<and> k < imaxqsize p \<and> matchable p s k) \<or> handed i s s')
           (\<lambda>s. False) (match_loop p e i j s)"
proof (induction "imaxqsize p - j" arbitrary: j)
  case 0
  then show ?case by (simp add: match_loop.simps [of p e i j s])
next
  case (Suc d)
  then have j: "j < imaxqsize p" by simp
  have d: "d = imaxqsize p - (j + 1)" using Suc.hyps(2) by simp
  note IH = Suc.hyps(1) [OF d]
  have skip: "\<not> (\<exists>k. j \<le> k \<and> k < imaxqsize p \<and> matchable p s k)"
    if "\<not> matchable p s j" "\<not> (\<exists>k. j + 1 \<le> k \<and> k < imaxqsize p \<and> matchable p s k)"
  proof
    assume "\<exists>k. j \<le> k \<and> k < imaxqsize p \<and> matchable p s k"
    then obtain k where k: "j \<le> k" "k < imaxqsize p" "matchable p s k" by blast
    with that(1) have "k \<noteq> j" by auto
    with k that(2) show False by (metis Suc_eq_plus1 Suc_leI le_neq_implies_less)
  qed
  show ?case
  proof (cases "status (ique s ! j) = QUEITEM_READY")
    case False
    then have "\<not> matchable p s j" by (simp add: matchable_def)
    with IH False j assms(3) skip show ?thesis
      by (cases "match_loop p e i (j + 1) s")
         (auto simp add: match_loop.simps [of p e i j s] post_def)
  next
    case True
    have h: "post (\<lambda>s'. s' = s \<and> \<not> matchable p s j \<or> handed i s s') (\<lambda>s. False) (handoff p e i j s)"
      using assms(2) j assms(1) True assms(3,4) by (intro handoff_settles) simp_all
    show ?thesis
    proof (cases "handoff p e i j s")
      case (Inl a)
      with h show ?thesis by (cases a) simp
    next
      case (Inr s1)
      with h consider "s1 = s" "\<not> matchable p s j" | "handed i s s1" by auto
      then show ?thesis
      proof cases
        case 1
        with IH Inr True j assms(3) skip show ?thesis
          by (cases "match_loop p e i (j + 1) s")
             (auto simp add: match_loop.simps [of p e i j s] post_def)
      next
        case 2
        then have "status (oque s1 ! i) = QUEITEM_INPROGRESS" by (simp add: handed_def)
        with 2 Inr True j show ?thesis
          by (simp add: match_loop.simps [of p e i j s])
      qed
    qed
  qed
qed

lemma output_slot_settles:
  assumes "counted p s" and "i < omaxqsize p"
    and "status (oque s ! i) = QUEITEM_INPROGRESS \<longrightarrow> write_settles e i"
    and "aio_write e i \<noteq> - 1"
  shows "post (\<lambda>(j', s'). out_step_post p e i j s s') (\<lambda>s. False) (output_slot p e i (j, s))"
proof -
  have len: "length (ique s) = imaxqsize p" "i < length (oque s)"
    using assms(1,2) by (simp_all add: counted_def)
  have nr: "status (oque s ! i) \<noteq> QUEITEM_READY"
    using assms(1) len(2) list_all_nth [of "\<lambda>q. status q \<noteq> QUEITEM_READY" "oque s" i]
    by (simp add: counted_def)
  show ?thesis
  proof (cases "status (oque s ! i) = QUEITEM_INPROGRESS")
    case True
    with assms(3) have "post (out_step_post p e i j s) (\<lambda>s. False) (output_probe e i s)"
      using len(2) by (intro output_probe_settles) simp_all
    with True show ?thesis
      by (cases "output_probe e i s") (auto simp add: output_slot_def post_def)
  next
    case False
    with nr have fr: "status (oque s ! i) = QUEITEM_FREE"
      by (cases "status (oque s ! i)") simp_all
    have m: "post (\<lambda>(j', s').
             s' = s \<and> \<not> (\<exists>k. j \<le> k \<and> k < imaxqsize p \<and> matchable p s k) \<or> handed i s s')
           (\<lambda>s. False) (match_loop p e i j s)"
      using len fr assms(4) by (rule match_loop_settles)
    have "out_step_post p e i j s s'"
      if "s' = s \<and> \<not> (\<exists>k. j \<le> k \<and> k < imaxqsize p \<and> matchable p s k) \<or> handed i s s'" for s'
      using that fr by (auto simp add: out_step_post_def handed_def)
    with m False show ?thesis
      by (cases "match_loop p e i j s") (auto simp add: output_slot_def post_def)
  qed
qed

lemma counted_output_slot:
  assumes "counted p s" and "i < omaxqsize p"
  shows "post (\<lambda>(j, s). counted p s) (\<lambda>s. True) (output_slot p e i (j, s))"
proof (rule output_slot_post)
  show "counted p s" by (rule assms(1))
next
  fix j s assume "j < imaxqsize p" "counted p s" "status (ique s ! j) = QUEITEM_READY"
    "status (oque s ! i) \<noteq> QUEITEM_INPROGRESS"
  then show "post (counted p) (\<lambda>s. True) (handoff p e i j s)"
    using assms(2) by (simp add: counted_handoff)
next
  fix s assume "counted p s" "status (oque s ! i) = QUEITEM_INPROGRESS"
  then show "post (counted p) (\<lambda>s. True) (output_probe e i s)"
    using assms(2) by (intro postI) (simp_all add: counted_output_probe)
qed

lemma counted_input_pass: "counted p s \<Longrightarrow> post (counted p) (\<lambda>s. True) (input_pass p e s)"
  unfolding input_pass_def
  by (rule for_slots_post) (auto intro!: postI simp add: counted_input_slot)

lemma output_slot_both:
  assumes "counted p s" and "i < omaxqsize p"
    and "status (oque s ! i) = QUEITEM_INPROGRESS \<longrightarrow> write_settles e i"
    and "aio_write e i \<noteq> - 1"
  shows "post (\<lambda>(j', s'). counted p s' \<and> out_step_post p e i j s s') (\<lambda>s. False)
           (output_slot p e i (j, s))"
proof -
  note a = counted_output_slot [OF assms(1,2), of e j]
  note b = output_slot_settles [OF assms, of j]
  show ?thesis
    by (rule post_mono [OF post_conj [OF a b]]) auto
qed

lemma out_pass_inv_step:
  assumes "m < omaxqsize p" and "out_pass_inv p s1 m (j, s)"
    and "status (oque s1 ! m) = QUEITEM_INPROGRESS \<longrightarrow> write_settles e m"
    and "aio_write e m \<noteq> - 1"
  shows "post (out_pass_inv p s1 (Suc m)) (\<lambda>s. False) (output_slot p e m (j, s))"
proof -
  have c: "counted p s" and e: "eof s"
    and same: "\<forall>k. m \<le> k \<longrightarrow> oque s ! k = oque s1 ! k"
    and noin: "\<forall>k<imaxqsize p. status (ique s ! k) \<noteq> QUEITEM_INPROGRESS"
    and le: "pending s \<le> pending s1"
    and zero: "m = 0 \<longrightarrow> j = 0 \<and> ique s = ique s1 \<and> orqnum s = orqnum s1"
    and strict: "(\<exists>k<m. status (oque s1 ! k) = QUEITEM_INPROGRESS) \<or>
         0 < m \<and> (\<exists>k<imaxqsize p. matchable p s1 k) \<longrightarrow>
           pending s < pending s1"
    using assms(2) by (simp_all add: out_pass_inv_def)
  have sm: "oque s ! m = oque s1 ! m" using same by simp
  have len: "m < length (oque s)" using c assms(1) by (simp add: counted_def)
  have nr: "status (oque s ! m) \<noteq> QUEITEM_READY"
    using c len list_all_nth [of "\<lambda>q. status q \<noteq> QUEITEM_READY" "oque s" m]
    by (simp add: counted_def)
  have step: "post (\<lambda>(j', s'). counted p s' \<and> out_step_post p e m j s s') (\<lambda>s. False)
           (output_slot p e m (j, s))"
    using c assms(1) assms(3) assms(4) sm by (intro output_slot_both) simp_all
  have "out_pass_inv p s1 (Suc m) (j', s')"
    if c': "counted p s'" and o: "out_step_post p e m j s s'" for j' s'
  proof -
    have 1: "eof s'" using o e by (simp add: out_step_post_def)
    have 2: "\<forall>k. Suc m \<le> k \<longrightarrow> oque s' ! k = oque s1 ! k"
      using o same by (simp add: out_step_post_def)
    have 3: "\<forall>k<imaxqsize p. status (ique s' ! k) \<noteq> QUEITEM_INPROGRESS"
      using o noin by (auto simp add: out_step_post_def)
    have 4: "pending s' \<le> pending s" using o by (simp add: out_step_post_def)
    have 5: "pending s' < pending s1"
      if d: "(\<exists>k<Suc m. status (oque s1 ! k) = QUEITEM_INPROGRESS) \<or>
         (\<exists>k<imaxqsize p. matchable p s1 k)"
    proof (cases "status (oque s ! m) = QUEITEM_INPROGRESS")
      case True
      with o have "pending s' < pending s" by (simp add: out_step_post_def)
      with le show ?thesis by linarith
    next
      case False
      with nr have fr: "status (oque s ! m) = QUEITEM_FREE"
        by (cases "status (oque s ! m)") simp_all
      show ?thesis
      proof (cases "m = 0")
        case True
        with d False sm obtain k where k: "k < imaxqsize p" "matchable p s1 k"
          by auto
        from True zero have "j = 0" "ique s = ique s1" "orqnum s = orqnum s1" by simp_all
        with k have "\<exists>k. j \<le> k \<and> k < imaxqsize p \<and> matchable p s k"
          by (auto simp add: matchable_def)
        with o fr have "pending s' < pending s" by (simp add: out_step_post_def)
        with le show ?thesis by linarith
      next
        case m: False
        from d False sm have "(\<exists>k<m. status (oque s1 ! k) = QUEITEM_INPROGRESS) \<or>
          (\<exists>k<imaxqsize p. matchable p s1 k)"
          by (auto simp add: less_Suc_eq)
        with strict m have "pending s < pending s1" by auto
        with 4 show ?thesis by linarith
      qed
    qed
    from c' 1 2 3 4 le 5 show ?thesis
      by (auto simp add: out_pass_inv_def)
  qed
  with step show ?thesis
    by (cases "output_slot p e m (j, s)") (auto simp add: post_def)
qed

lemma output_pass_drain:
  assumes "counted p s1" and "eof s1"
    and "\<forall>k<imaxqsize p. status (ique s1 ! k) \<noteq> QUEITEM_INPROGRESS"
    and "\<forall>m<omaxqsize p.
           (status (oque s1 ! m) = QUEITEM_INPROGRESS \<longrightarrow> write_settles e m) \<and> aio_write e m \<noteq> - 1"
  shows "post (\<lambda>s'. counted p s' \<and> eof s' \<and> pending s' \<le> pending s1 \<and>
                 ((\<exists>k<omaxqsize p. status (oque s1 ! k) = QUEITEM_INPROGRESS) \<or>
                  0 < omaxqsize p \<and> (\<exists>k<imaxqsize p. matchable p s1 k) \<longrightarrow>
                    pending s' < pending s1))
           (\<lambda>s. False) (output_pass p e s1)"
proof -
  have "post (out_pass_inv p s1 (omaxqsize p)) (\<lambda>s. False)
          (for_slots (output_slot p e) [0..<omaxqsize p] (0, s1))"
  proof (rule for_upt_post)
    show "out_pass_inv p s1 0 (0, s1)" using assms(1,2,3) by (simp add: out_pass_inv_def)
  next
    show "0 \<le> omaxqsize p" by simp
  next
    fix m and x :: "nat \<times> state"
    assume m: "m < omaxqsize p" and inv: "out_pass_inv p s1 m x"
    obtain j s where x: "x = (j, s)" by (cases x)
    from inv x have "out_pass_inv p s1 m (j, s)" by simp
    then have "post (out_pass_inv p s1 (Suc m)) (\<lambda>s. False) (output_slot p e m (j, s))"
      using assms(4) m by (intro out_pass_inv_step) simp_all
    with x show "post (out_pass_inv p s1 (Suc m)) (\<lambda>s. False) (output_slot p e m x)" by simp
  qed
  then show ?thesis
  proof (cases "for_slots (output_slot p e) [0..<omaxqsize p] (0, s1)")
    case (Inl a)
    then show "post (out_pass_inv p s1 (omaxqsize p)) (\<lambda>s. False)
        (for_slots (output_slot p e) [0..<omaxqsize p] (0, s1)) \<Longrightarrow> ?thesis"
      by (cases a) simp
  next
    case (Inr x)
    obtain j2 s2 where x: "x = (j2, s2)" by (cases x)
    assume "post (out_pass_inv p s1 (omaxqsize p)) (\<lambda>s. False)
        (for_slots (output_slot p e) [0..<omaxqsize p] (0, s1))"
    with Inr x have inv: "out_pass_inv p s1 (omaxqsize p) (j2, s2)" by simp
    then have "counted p s2" "eof s2" "pending s2 \<le> pending s1"
      "(\<exists>k<omaxqsize p. status (oque s1 ! k) = QUEITEM_INPROGRESS) \<or>
         0 < omaxqsize p \<and> (\<exists>k<imaxqsize p. matchable p s1 k) \<longrightarrow>
           pending s2 < pending s1"
      by (simp_all add: out_pass_inv_def)
    with Inr x show ?thesis by (simp add: output_pass_def)
  qed
qed

lemma settles_writes:
  assumes "settles p e s" and "counted p s"
  shows "\<forall>m<omaxqsize p.
           (status (oque s ! m) = QUEITEM_INPROGRESS \<longrightarrow> write_settles e m) \<and> aio_write e m \<noteq> - 1"
  using assms settles_write [OF assms(1)] by (simp add: counted_def)

lemma not_all_free: "\<not> all_free qs \<Longrightarrow> \<exists>k<length qs. status (qs ! k) \<noteq> QUEITEM_FREE"
  by (auto simp add: all_free_def list_all_length)

lemma pending_pos_cases:
  assumes "counted p s" and "0 < pending s"
    and "\<forall>k<imaxqsize p. status (ique s ! k) \<noteq> QUEITEM_INPROGRESS"
  shows "(\<exists>k<omaxqsize p. status (oque s ! k) = QUEITEM_INPROGRESS) \<or>
         (\<exists>k<imaxqsize p. status (ique s ! k) = QUEITEM_READY)"
proof (cases "all_free (ique s)")
  case False
  then obtain k where k: "k < length (ique s)" "status (ique s ! k) \<noteq> QUEITEM_FREE"
    using not_all_free by blast
  with assms(1,3) have "status (ique s ! k) = QUEITEM_READY"
    by (cases "status (ique s ! k)") (simp_all add: counted_def)
  with k assms(1) show ?thesis by (auto simp add: counted_def)
next
  case True
  then have "sum_list (map weight_in (ique s)) = 0"
    by (rule sum_list_weight_zero [THEN iffD2])
  with assms(2) have nz: "sum_list (map weight_out (oque s)) \<noteq> 0"
    unfolding pending_def by linarith
  have "\<not> all_free (oque s)"
  proof
    assume "all_free (oque s)"
    then have "sum_list (map weight_out (oque s)) = 0"
      by (rule sum_list_weight_out_zero [THEN iffD2])
    with nz show False by (rule notE)
  qed
  then obtain k where k: "k < length (oque s)" "status (oque s ! k) \<noteq> QUEITEM_FREE"
    using not_all_free by blast
  have "status (oque s ! k) \<noteq> QUEITEM_READY"
    using assms(1) k(1) list_all_nth [of "\<lambda>q. status q \<noteq> QUEITEM_READY" "oque s" k]
    by (simp add: counted_def)
  with k have "status (oque s ! k) = QUEITEM_INPROGRESS"
    by (cases "status (oque s ! k)") simp_all
  with k assms(1) show ?thesis by (auto simp add: counted_def)
qed

lemma input_slot_idle:
  assumes "eof s" and "status (ique s ! i) \<noteq> QUEITEM_INPROGRESS"
  shows "input_slot p e i s = Inr s"
  using assms by (simp add: input_slot_def)

lemma input_pass_idle:
  assumes "eof s" and "\<forall>k<imaxqsize p. status (ique s ! k) \<noteq> QUEITEM_INPROGRESS"
  shows "input_pass p e s = Inr s"
proof -
  have "for_slots (input_slot p e) js s = Inr s" if "set js \<subseteq> {..<imaxqsize p}" for js
    using that
  proof (induction js)
    case Nil
    then show ?case by simp
  next
    case (Cons i js)
    then have "i < imaxqsize p" by simp
    with assms have "input_slot p e i s = Inr s" by (simp add: input_slot_idle)
    with Cons show ?case by simp
  qed
  moreover have "set [0..<imaxqsize p] \<subseteq> {..<imaxqsize p}" by auto
  ultimately show ?thesis unfolding input_pass_def by blast
qed

lemma in_order_next:
  assumes "in_order s" and "k < length (ique s)" and "status (ique s ! k) = QUEITEM_READY"
    and "\<forall>k<length (ique s). status (ique s ! k) \<noteq> QUEITEM_INPROGRESS"
  shows "\<exists>k<length (ique s). status (ique s ! k) = QUEITEM_READY \<and> rqnum (ique s ! k) = orqnum s + 1"
proof -
  have "list_ex (\<lambda>q. status q = QUEITEM_READY) (ique s)"
    using assms(2,3) by (auto simp add: list_ex_iff)
  with assms(1) have "list_ex (\<lambda>q. status q \<noteq> QUEITEM_FREE \<and> rqnum q = orqnum s + 1) (ique s)"
    by (simp add: in_order_def)
  then obtain n where n: "n < length (ique s)" "status (ique s ! n) \<noteq> QUEITEM_FREE"
    "rqnum (ique s ! n) = orqnum s + 1"
    by (auto simp add: list_ex_iff in_set_conv_nth)
  with assms(4) have "status (ique s ! n) = QUEITEM_READY"
    by (cases "status (ique s ! n)") simp_all
  with n show ?thesis by blast
qed

lemma scan_drain:
  assumes "oseekable p \<or> in_order s" and "0 < omaxqsize p" and "counted p s" and "eof s"
    and "settles p e s"
  shows "post (\<lambda>s'. counted p s' \<and> eof s' \<and> pending s' \<le> pending s \<and>
                 (0 < pending s \<longrightarrow> pending s' < pending s))
           (\<lambda>s. False) (scan p e s)"
proof -
  have len: "length (ique s) = imaxqsize p" using assms(3) by (simp add: counted_def)
  note ip = input_pass_settles [OF assms(5) len]
  note ic = counted_input_pass [OF assms(3), of e]
  show ?thesis
  proof (cases "input_pass p e s")
    case (Inl a)
    with ip show ?thesis by (cases a) simp
  next
    case (Inr s1)
    with ip ic have inv: "in_pass_inv s (imaxqsize p) s1" and c1: "counted p s1" by simp_all
    from inv assms(4) have e1: "eof s1" and o1: "oque s1 = oque s"
      and noin: "\<forall>k<imaxqsize p. status (ique s1 ! k) \<noteq> QUEITEM_INPROGRESS"
      and wle: "sum_list (map weight_in (ique s1)) \<le> sum_list (map weight_in (ique s))"
      and wlt: "(\<exists>k<imaxqsize p. status (ique s ! k) = QUEITEM_INPROGRESS) \<longrightarrow>
          sum_list (map weight_in (ique s1)) < sum_list (map weight_in (ique s))"
      by (simp_all add: in_pass_inv_def)
    from wle o1 have p1: "pending s1 \<le> pending s" by (simp add: pending_def)
    from wlt o1 have p1': "(\<exists>k<imaxqsize p. status (ique s ! k) = QUEITEM_INPROGRESS) \<longrightarrow>
        pending s1 < pending s" by (simp add: pending_def)
    have ws: "\<forall>m<omaxqsize p.
           (status (oque s1 ! m) = QUEITEM_INPROGRESS \<longrightarrow> write_settles e m) \<and> aio_write e m \<noteq> - 1"
      using settles_writes [OF assms(5,3)] o1 by simp
    note op = output_pass_drain [OF c1 e1 noin ws]
    show ?thesis
    proof (cases "output_pass p e s1")
      case (Inl a)
      with op show ?thesis by (cases a) simp
    next
      case s2: (Inr s2)
      with op have c2: "counted p s2" and e2: "eof s2" and p2: "pending s2 \<le> pending s1"
        and st: "(\<exists>k<omaxqsize p. status (oque s1 ! k) = QUEITEM_INPROGRESS) \<or>
                  0 < omaxqsize p \<and> (\<exists>k<imaxqsize p. matchable p s1 k) \<longrightarrow>
                    pending s2 < pending s1"
        by simp_all
      have "pending s2 < pending s" if pos: "0 < pending s"
      proof (cases "\<exists>k<imaxqsize p. status (ique s ! k) = QUEITEM_INPROGRESS")
        case True
        with p1' have "pending s1 < pending s" by blast
        with p2 show ?thesis by linarith
      next
        case False
        then have idle: "\<forall>k<imaxqsize p. status (ique s ! k) \<noteq> QUEITEM_INPROGRESS" by simp
        from input_pass_idle [OF assms(4) idle, of e] Inr have same: "s1 = s" by simp
        from pending_pos_cases [OF assms(3) pos idle] consider
            k where "k < omaxqsize p" "status (oque s ! k) = QUEITEM_INPROGRESS"
          | k where "k < imaxqsize p" "status (ique s ! k) = QUEITEM_READY"
          by blast
        then have "(\<exists>k<omaxqsize p. status (oque s1 ! k) = QUEITEM_INPROGRESS) \<or>
            (\<exists>k<imaxqsize p. matchable p s1 k)"
        proof cases
          case 1
          with same show ?thesis by blast
        next
          case 2
          show ?thesis
          proof (cases "oseekable p")
            case True
            with 2 same show ?thesis by (auto simp add: matchable_def)
          next
            case False
            with assms(1) have "in_order s" by simp
            from in_order_next [OF this] 2 idle len obtain n where
              "n < imaxqsize p" "status (ique s ! n) = QUEITEM_READY" "rqnum (ique s ! n) = orqnum s + 1"
              by auto
            with same show ?thesis by (auto simp add: matchable_def)
          qed
        qed
        with st assms(2) have "pending s2 < pending s1" by blast
        with p1 show ?thesis by linarith
      qed
      with c2 e2 p1 p2 Inr s2 show ?thesis by (simp add: scan_def)
    qed
  qed
qed

lemma drain:
  assumes "0 < omaxqsize p"
  shows "counted p s \<Longrightarrow> eof s \<Longrightarrow> settling p es s \<Longrightarrow> oseekable p \<or> in_order_run p es s \<Longrightarrow>
         pending s < length es \<Longrightarrow> \<exists>s'. main_loop p es s = Left s'"
proof (induction es arbitrary: s)
  case Nil
  then show ?case by simp
next
  case (Cons e es)
  from Cons.prems(3) have se: "settles p e s" by simp
  from Cons.prems(4) have io: "oseekable p \<or> in_order s" by auto
  note sd = scan_drain [OF io assms Cons.prems(1,2) se]
  show ?case
  proof (cases "scan p e s")
    case (Inl a)
    with sd show ?thesis by (cases a) simp
  next
    case (Inr s1)
    with sd have c1: "counted p s1" and e1: "eof s1" and le: "pending s1 \<le> pending s"
      and lt: "0 < pending s \<longrightarrow> pending s1 < pending s"
      by simp_all
    show ?thesis
    proof (cases "all_done s1")
      case True
      with Inr show ?thesis by simp
    next
      case False
      with pending_zero_done [OF c1 e1] have pos1: "0 < pending s1" by auto
      with le lt have "pending s1 < pending s" by linarith
      with Cons.prems(5) have b: "pending s1 < length es" by simp
      from Cons.prems(3) Inr False have st: "settling p es s1" by simp
      from Cons.prems(4) Inr False have io1: "oseekable p \<or> in_order_run p es s1" by auto
      from Cons.IH [OF c1 e1 st io1 b] Inr False show ?thesis by simp
    qed
  qed
qed

section \<open>A stuck state stays as it is\<close>

lemma match_loop_rest:
  assumes "\<forall>k<imaxqsize p. \<not> matchable p s k" and "status (oque s ! i) \<noteq> QUEITEM_INPROGRESS"
  shows "\<exists>j'. match_loop p e i j s = Inr (j', s)"
proof (induction "imaxqsize p - j" arbitrary: j)
  case 0
  then show ?case by (simp add: match_loop.simps [of p e i j s])
next
  case (Suc d)
  then have j: "j < imaxqsize p" by simp
  have d: "d = imaxqsize p - (j + 1)" using Suc.hyps(2) by simp
  from Suc.hyps(1) [OF d] obtain j' where r: "match_loop p e i (j + 1) s = Inr (j', s)" by blast
  have "(if status (ique s ! j) = QUEITEM_READY then handoff p e i j s else Inr s) = Inr s"
    using assms(1) j by (auto simp add: matchable_def handoff_def)
  with r j assms(2) show ?case by (simp add: match_loop.simps [of p e i j s])
qed

lemma output_slots_rest:
  assumes "\<forall>k<imaxqsize p. \<not> matchable p s k"
    and "\<forall>i \<in> set is. status (oque s ! i) \<noteq> QUEITEM_INPROGRESS"
  shows "\<exists>j'. for_slots (output_slot p e) is (j, s) = Inr (j', s)"
  using assms(2)
proof (induction "is" arbitrary: j)
  case Nil
  then show ?case by simp
next
  case (Cons i "is")
  then have st: "status (oque s ! i) \<noteq> QUEITEM_INPROGRESS" by simp
  from match_loop_rest [OF assms(1) st, of e j] obtain j1 where
    "match_loop p e i j s = Inr (j1, s)" by blast
  with st have "output_slot p e i (j, s) = Inr (j1, s)" by (simp add: output_slot_def)
  moreover from Cons obtain j' where "for_slots (output_slot p e) is (j1, s) = Inr (j', s)"
    by fastforce
  ultimately show ?case by simp
qed

lemma scan_rest:
  assumes "stuck p s"
  shows "scan p e s = Inr s"
proof -
  from assms have e: "eof s"
    and i: "\<forall>k<imaxqsize p. status (ique s ! k) \<noteq> QUEITEM_INPROGRESS"
    and m: "\<forall>k<imaxqsize p. \<not> matchable p s k"
    and o: "\<forall>i \<in> set [0..<omaxqsize p]. status (oque s ! i) \<noteq> QUEITEM_INPROGRESS"
    by (simp_all add: stuck_def list_all_iff)
  from output_slots_rest [OF m o, of e 0] obtain j' where
    "for_slots (output_slot p e) [0..<omaxqsize p] (0, s) = Inr (j', s)" by blast
  then have "output_pass p e s = Inr s" by (simp add: output_pass_def)
  with input_pass_idle [OF e i, of e] show ?thesis by (simp add: scan_def)
qed

lemma stuck_forever:
  assumes "stuck p s"
  shows "main_loop p es s = Blocked s"
proof (induction es)
  case Nil
  show ?case by simp
next
  case (Cons e es)
  from assms have "\<not> all_done s" by (simp add: stuck_def)
  with scan_rest [OF assms, of e] Cons show ?case by simp
qed

section \<open>Calm environments\<close>

lemma calm_read:
  assumes "calm p e" and "i < imaxqsize p"
  shows "aio_error_i e i = 0 \<or> aio_error_i e i = EINPROGRESS \<or> aio_error_i e i = ECANCELED"
    and "fst (posix_memalign e i) = 0" and "aio_read e i \<noteq> - 1"
  using assms by (simp_all add: calm_def list_all_iff)

lemma calm_write:
  assumes "calm p e" and "i < omaxqsize p"
  shows "aio_error_o e i = 0 \<or> aio_error_o e i = EINPROGRESS \<or> aio_error_o e i = ECANCELED \<or>
         aio_error_o e i = EFBIG"
    and "aio_write e i \<noteq> - 1"
  using assms by (simp_all add: calm_def list_all_iff)

lemma calm_input_slot:
  assumes "calm p e" and "i < imaxqsize p"
  shows "post (\<lambda>s. True) (\<lambda>s. False) (input_slot p e i s)"
proof -
  note c = calm_read [OF assms]
  obtain a where m: "posix_memalign e i = (0, a)"
    using c(2) by (cases "posix_memalign e i") simp
  from c(1) consider "aio_error_i e i = 0" | "aio_error_i e i = EINPROGRESS"
    | "aio_error_i e i = ECANCELED" by blast
  then show ?thesis
  proof cases
    case 1
    with m c(3) show ?thesis
      by (simp add: input_slot_def read_completed_def resubmit_read_def submit_read_def Let_def)
  next
    case 2
    with m c(3) show ?thesis
      by (simp add: input_slot_def submit_read_def Let_def EINPROGRESS_def)
  next
    case 3
    with m c(3) show ?thesis
      by (simp add: input_slot_def submit_read_def Let_def EINPROGRESS_def ECANCELED_def)
  qed
qed

lemma calm_handoff:
  assumes "calm p e" and "i < omaxqsize p"
  shows "post (\<lambda>s. True) (\<lambda>s. False) (handoff p e i j s)"
  using calm_write(2) [OF assms] by (simp add: handoff_def Let_def)

lemma calm_output_probe:
  assumes "calm p e" and "i < omaxqsize p"
  shows "post (\<lambda>s. True) (\<lambda>s. False) (output_probe e i s)"
proof -
  from calm_write(1) [OF assms] consider "aio_error_o e i = 0" | "aio_error_o e i = EINPROGRESS"
    | "aio_error_o e i = ECANCELED" | "aio_error_o e i = EFBIG" by blast
  then show ?thesis
    by cases (simp_all add: output_probe_def Let_def EINPROGRESS_def ECANCELED_def EFBIG_def)
qed

lemma calm_scan:
  assumes "calm p e"
  shows "post (\<lambda>s. True) (\<lambda>s. False) (scan p e s)"
proof (rule scan_post)
  fix i s assume "i < omaxqsize p"
  with assms show "post (\<lambda>s. True) (\<lambda>s. False) (output_probe e i s)" by (rule calm_output_probe)
qed (simp_all add: calm_input_slot calm_handoff assms)

lemma calm_scan_inv:
  assumes "calm p e" and "counted p s" and "eof s"
  shows "post (\<lambda>s'. counted p s' \<and> eof s') (\<lambda>s. False) (scan p e s)"
  by (rule post_mono [OF post_conj [OF post_conj [OF counted_scan [OF assms(2)] eof_scan [OF assms(3)]]
        calm_scan [OF assms(1)]]]) simp_all

lemma calm_main_loop:
  assumes "list_all (calm p) es" and "counted p s" and "eof s"
  shows "loop_post (\<lambda>s'. counted p s' \<and> eof s') (\<lambda>s. False) (main_loop p es s)"
  using assms
proof (induction es arbitrary: s)
  case Nil
  then show ?case by simp
next
  case (Cons e es)
  then have "calm p e" by simp
  note b = calm_scan_inv [OF this Cons.prems(2,3)]
  show ?case
  proof (cases "scan p e s")
    case (Inl a)
    with b show ?thesis by (cases a) simp
  next
    case (Inr s')
    with b have "counted p s'" "eof s'" by simp_all
    with Cons.IH [of s'] Cons.prems(1) Inr show ?thesis by simp
  qed
qed

lemma main_loop_append:
  "main_loop p (es1 @ es2) s =
     (case main_loop p es1 s of Blocked s' \<Rightarrow> main_loop p es2 s' | r \<Rightarrow> r)"
proof (induction es1 arbitrary: s)
  case Nil
  then show ?case by simp
next
  case (Cons e es1)
  show ?case
  proof (cases "scan p e s")
    case (Inl a)
    then show ?thesis by (cases a) simp
  next
    case (Inr s')
    with Cons.IH [of s'] show ?thesis by simp
  qed
qed

section \<open>The probe that meets \<^verbatim>\<open>EFBIG\<close>\<close>

lemma kept_refl: "kept i s s"
  by (simp add: kept_def)

lemma kept_handoff: "kept i s x \<Longrightarrow> post (kept i s) (\<lambda>s. True) (handoff p e i j x)"
  by (simp add: handoff_def Let_def kept_def)

lemma kept_output_probe: "kept i s x \<Longrightarrow> post (kept i s) (\<lambda>s. True) (output_probe e i x)"
  by (auto simp add: output_probe_def release_output_def Let_def kept_def)

lemma kept_output_slot: "post (\<lambda>(j', s'). kept i s s') (\<lambda>s. True) (output_slot p e i (j, s))"
  by (rule output_slot_post) (simp_all add: kept_handoff kept_output_probe kept_refl)

lemma efbig_output_slot:
  assumes "i < length (oque s)" and "status (oque s ! i) = QUEITEM_INPROGRESS"
    and "aio_error_o e i = EFBIG"
  shows "post (\<lambda>(j', s'). eof s' \<and> status (oque s' ! i) = QUEITEM_FREE \<and> buffer (oque s' ! i) = NULL \<and>
                 frees s' = frees s @ [buffer (oque s ! i)] \<and> oqsize s' = oqsize s - 1)
           (\<lambda>s. False) (output_slot p e i (j, s))"
  using assms
  by (simp add: output_slot_def output_probe_def release_output_def Let_def
        EFBIG_def EINPROGRESS_def ECANCELED_def)

lemma calm_output_slot:
  assumes "calm p e" and "i < omaxqsize p"
  shows "post (\<lambda>js. True) (\<lambda>s. False) (output_slot p e i (j, s))"
proof -
  have "post (\<lambda>(j, s). True) (\<lambda>s. False) (output_slot p e i (j, s))"
  proof (rule output_slot_post)
    fix s show "post (\<lambda>s. True) (\<lambda>s. False) (output_probe e i s)"
      using assms by (rule calm_output_probe)
  qed (simp_all add: calm_handoff assms)
  then show ?thesis by (rule post_mono) simp_all
qed

lemma first_inv_step:
  assumes "m < omaxqsize p" and "first_inv p s1 i m (j, s)" and "calm p e"
    and "status (oque s1 ! i) = QUEITEM_INPROGRESS" and "aio_error_o e i = EFBIG"
  shows "post (first_inv p s1 i (Suc m)) (\<lambda>s. False) (output_slot p e m (j, s))"
proof -
  have c: "counted p s" and e: "eof s1 \<longrightarrow> eof s"
    and same: "\<forall>k. m \<le> k \<longrightarrow> oque s ! k = oque s1 ! k"
    and prev: "i < m \<longrightarrow>
           eof s \<and> status (oque s ! i) = QUEITEM_FREE \<and> buffer (oque s ! i) = NULL \<and>
           buffer (oque s1 ! i) \<in> set (frees s)"
    using assms(2) by (simp_all add: first_inv_def)
  have sm: "oque s ! m = oque s1 ! m" using same by simp
  have len: "m < length (oque s)" using c assms(1) by (simp add: counted_def)
  note a1 = counted_output_slot [OF c assms(1), of e j]
  note a2 = kept_output_slot [of m s p e j]
  note a3 = calm_output_slot [OF assms(3,1), of j s]
  show ?thesis
  proof (cases "output_slot p e m (j, s)")
    case (Inl a)
    with a3 show ?thesis by (cases a) simp
  next
    case (Inr x)
    obtain j' s' where x: "x = (j', s')" by (cases x)
    with Inr a1 a2 have c': "counted p s'" and k: "kept m s s'" by simp_all
    have 1: "eof s1 \<longrightarrow> eof s'" using k e by (simp add: kept_def)
    have 2: "\<forall>k. Suc m \<le> k \<longrightarrow> oque s' ! k = oque s1 ! k"
      using k same by (simp add: kept_def)
    have 3: "eof s' \<and> status (oque s' ! i) = QUEITEM_FREE \<and> buffer (oque s' ! i) = NULL \<and>
           buffer (oque s1 ! i) \<in> set (frees s')" if "i < Suc m"
    proof (cases "i = m")
      case True
      with sm assms(4) have st: "status (oque s ! m) = QUEITEM_INPROGRESS" by simp
      from efbig_output_slot [OF len st, of e p j] assms(5) True Inr x sm show ?thesis by simp
    next
      case False
      with that have "i < m" by simp
      with prev False k show ?thesis by (auto simp add: kept_def)
    qed
    from c' 1 2 3 Inr x show ?thesis by (simp add: first_inv_def)
  qed
qed

lemma output_pass_first:
  assumes "counted p s1" and "i < omaxqsize p" and "calm p e"
    and "status (oque s1 ! i) = QUEITEM_INPROGRESS" and "aio_error_o e i = EFBIG"
  shows "post (\<lambda>s'. counted p s' \<and> eof s' \<and> status (oque s' ! i) = QUEITEM_FREE \<and>
                 buffer (oque s' ! i) = NULL \<and> buffer (oque s1 ! i) \<in> set (frees s'))
           (\<lambda>s. False) (output_pass p e s1)"
proof -
  have loop: "post (first_inv p s1 i (omaxqsize p)) (\<lambda>s. False)
          (for_slots (output_slot p e) [0..<omaxqsize p] (0, s1))"
  proof (rule for_upt_post)
    show "first_inv p s1 i 0 (0, s1)" using assms(1) by (simp add: first_inv_def)
  next
    show "0 \<le> omaxqsize p" by simp
  next
    fix m and x :: "nat \<times> state"
    assume m: "m < omaxqsize p" and inv: "first_inv p s1 i m x"
    obtain j s where x: "x = (j, s)" by (cases x)
    from inv x have "first_inv p s1 i m (j, s)" by simp
    with m have "post (first_inv p s1 i (Suc m)) (\<lambda>s. False) (output_slot p e m (j, s))"
      using assms(3,4,5) by (rule first_inv_step)
    with x show "post (first_inv p s1 i (Suc m)) (\<lambda>s. False) (output_slot p e m x)" by simp
  qed
  show ?thesis
  proof (cases "for_slots (output_slot p e) [0..<omaxqsize p] (0, s1)")
    case (Inl a)
    with loop show ?thesis by (cases a) simp
  next
    case (Inr x)
    obtain j2 s2 where x: "x = (j2, s2)" by (cases x)
    with loop Inr have inv: "first_inv p s1 i (omaxqsize p) (j2, s2)" by simp
    with assms(2) have "counted p s2" "eof s2" "status (oque s2 ! i) = QUEITEM_FREE"
      "buffer (oque s2 ! i) = NULL" "buffer (oque s1 ! i) \<in> set (frees s2)"
      by (simp_all add: first_inv_def)
    with Inr x show ?thesis by (simp add: output_pass_def)
  qed
qed

lemma input_pass_calm:
  assumes "calm p e" and "counted p s"
  shows "post (\<lambda>s'. counted p s' \<and> oque s' = oque s) (\<lambda>s. False) (input_pass p e s)"
proof -
  have 1: "post (\<lambda>s. True) (\<lambda>s. False) (input_pass p e s)"
    unfolding input_pass_def using assms(1) by (intro for_slots_post) (simp_all add: calm_input_slot)
  have 2: "post (\<lambda>s'. oque s' = oque s) (\<lambda>s. True) (input_pass p e s)"
    unfolding input_pass_def
  proof (rule for_slots_post)
    fix i and x :: state assume "oque x = oque s"
    with input_slot_frame [of x p e i]
    show "post (\<lambda>s'. oque s' = oque s) (\<lambda>s. True) (input_slot p e i x)"
      by (cases "input_slot p e i x") (auto simp add: post_def)
  qed simp
  note 3 = counted_input_pass [OF assms(2), of e]
  show ?thesis
    by (rule post_mono [OF post_conj [OF post_conj [OF 1 2] 3]]) simp_all
qed

lemma scan_first:
  assumes "counted p s" and "calm p e" and "i < omaxqsize p"
    and "status (oque s ! i) = QUEITEM_INPROGRESS" and "aio_error_o e i = EFBIG"
  shows "post (\<lambda>s'. counted p s' \<and> eof s' \<and> status (oque s' ! i) = QUEITEM_FREE \<and>
                 buffer (oque s' ! i) = NULL \<and> buffer (oque s ! i) \<in> set (frees s'))
           (\<lambda>s. False) (scan p e s)"
proof (cases "input_pass p e s")
  case (Inl a)
  with input_pass_calm [OF assms(2,1)] show ?thesis by (cases a) simp
next
  case (Inr s1)
  with input_pass_calm [OF assms(2,1)] have c1: "counted p s1" and o1: "oque s1 = oque s"
    by simp_all
  have st: "status (oque s1 ! i) = QUEITEM_INPROGRESS" using assms(4) o1 by simp
  from output_pass_first [OF c1 assms(3,2) st assms(5)] Inr o1 show ?thesis
    by (simp add: scan_def)
qed

section \<open>The claims\<close>

subsection \<open>Order of the writes\<close>




subsection \<open>Offsets of the writes\<close>

text \<open>
  Claim C2, as stated, fails: in the pipe-to-pipe run the second write is submitted with
  file offset 512.
\<close>

theorem nonseekable_output_offset_counterexample:
  "\<not> oseekable pipe_params \<and> w_offset (aio_writes (pipe_state 6)) 1 = 512 \<and>
   w_offset (aio_writes (pipe_state 6)) 1 \<noteq> 0"
  by code_simp

text \<open>
  Claim C2, amended. The offset of a write is chosen by the seekability of the input, not
  of the output. In every run whose output cannot seek, the \<open>k\<close>-th write (counting from
  0) carries the file offset \<open>k * blksize\<close> when the input can seek, and the number of
  bytes handed to the earlier writes when it cannot, both in 64-bit arithmetic. Only the
  first write is certain to carry offset 0.
\<close>

theorem nonseekable_output_offsets:
  assumes "\<not> oseekable p"
    and "ws = aio_writes (last_state (main_loop p es (init_state p ifd ofd)))"
    and "k < length ws"
  shows "w_offset ws k =
           (if iseekable p then word_of_int (int k) * word_of_int (blksize p)
            else nbytes_total (take k ws)) \<and>
         w_offset ws 0 = 0"
proof -
  have "0 < length ws" using assms(3) by linarith
  from write_ok_last_state [OF assms(2) this] assms(1) have "w_offset ws 0 = 0"
    by (simp add: write_ok_def w_offset_def nbytes_total_def)
  with write_ok_last_state [OF assms(2,3)] assms(1) show ?thesis
    by (simp add: write_ok_def w_offset_def)
qed

theorem nonseekable_output_offsets_witness:
  "\<not> oseekable pipe_params \<and> 1 < length (aio_writes (pipe_state 6)) \<and>
   w_offset (aio_writes (pipe_state 6)) 1 =
     (if iseekable pipe_params then word_of_int (int 1) * word_of_int (blksize pipe_params)
      else nbytes_total (take 1 (aio_writes (pipe_state 6)))) \<and>
   w_offset (aio_writes (pipe_state 6)) 0 = 0"
proof -
  have h: "\<not> oseekable pipe_params" by (simp add: pipe_params_def)
  have n: "1 < length (aio_writes (pipe_state 6))" by code_simp
  have e: "aio_writes (pipe_state 6) =
      aio_writes (last_state (main_loop pipe_params (take 6 pipe_run) (init_state pipe_params fd_in fd_out)))"
    by (simp add: pipe_state_def)
  from nonseekable_output_offsets [OF h e n] h n show ?thesis by blast
qed

text \<open>
  Claim C3, as stated, fails: with two input slots on a seekable input the second block can
  be ready before the first, and it is then written first. In the file-to-file run the
  offsets of the writes are 512 and then 0.
\<close>

theorem seekable_output_offsets_counterexample:
  "oseekable file_params \<and> w_offset (aio_writes (file_state 5)) 0 = 512 \<and>
   w_offset (aio_writes (file_state 5)) 1 = 0 \<and>
   \<not> w_offset (aio_writes (file_state 5)) 0 < w_offset (aio_writes (file_state 5)) 1"
  by code_simp

text \<open>
  Claim C3, amended. In every run whose output can seek, each write carries the block of
  the read it is matched with, and no read is written twice. When the input can seek as
  well, the write carries the file offset of that read, \<open>(n - 1) * blksize\<close> for read
  number \<open>n\<close>, whatever the order of submission, so that no offset is written twice as
  long as \<open>blksize\<close> is positive and the offsets do not wrap around, and two writes of
  at most \<open>blksize\<close> bytes do not overlap. When the input
  cannot seek, the first write carries offset 0 and each later write carries the offset of
  the write before it plus the byte count of that write (the filled count of its input
  slot), in 64-bit arithmetic, which is strictly larger as long as \<open>blksize\<close> is not 0
  and the sum does not wrap around.
\<close>

theorem seekable_output_offsets:
  assumes "oseekable p"
    and "s = last_state (main_loop p es (init_state p ifd ofd))" and "ws = aio_writes s"
    and "k < length ws"
  shows "block_of s (w_source (ws ! k)) = Some (w_block (ws ! k)) \<and>
         (\<forall>j<k. w_source (ws ! j) \<noteq> w_source (ws ! k)) \<and>
         (if iseekable p
          then w_offset ws k = (word_of_int (w_source (ws ! k)) - 1) * word_of_int (blksize p) \<and>
               (\<forall>j<k. 0 < blksize p \<and> w_source (ws ! j) * blksize p \<le> 2 ^ 64 \<and>
                       w_source (ws ! k) * blksize p \<le> 2 ^ 64 \<longrightarrow>
                         w_offset ws j \<noteq> w_offset ws k \<and>
                         (uint (w_nbytes ws j) \<le> blksize p \<and> uint (w_nbytes ws k) \<le> blksize p \<longrightarrow>
                            uint (w_offset ws j) + uint (w_nbytes ws j) \<le> uint (w_offset ws k) \<or>
                            uint (w_offset ws k) + uint (w_nbytes ws k) \<le> uint (w_offset ws j)))
          else w_offset ws 0 = 0 \<and>
               (Suc k < length ws \<longrightarrow>
                  w_offset ws (Suc k) = w_offset ws k + w_nbytes ws k \<and>
                  (word_of_int (blksize p) \<noteq> (0 :: 64 word) \<and>
                   unat (w_offset ws k) + unat (w_nbytes ws k) < 2 ^ 64 \<longrightarrow>
                     w_offset ws k < w_offset ws (Suc k))))"
proof -
  have ws: "ws = aio_writes (last_state (main_loop p es (init_state p ifd ofd)))"
    using assms(2,3) by simp
  have n: "numbered s" unfolding assms(2) by (rule numbered_last_state)
  have mem: "ws ! j \<in> set (aio_writes s)" if "j < length ws" for j
    using that assms(3) by simp
  have blk: "block_of s (w_source (ws ! k)) = Some (w_block (ws ! k))"
    using numbered_block [OF n mem [OF assms(4)]] .
  have src: "w_source (ws ! j) \<noteq> w_source (ws ! k)" if "j < k" for j
    using numbered_sources_differ [OF n that] assms(3,4) by simp
  have pos: "0 < w_source (ws ! j)" if "j < length ws" for j
    using numbered_source_bounds [OF n mem [OF that]] by simp
  have rest: "if iseekable p
          then w_offset ws k = (word_of_int (w_source (ws ! k)) - 1) * word_of_int (blksize p) \<and>
               (\<forall>j<k. 0 < blksize p \<and> w_source (ws ! j) * blksize p \<le> 2 ^ 64 \<and>
                       w_source (ws ! k) * blksize p \<le> 2 ^ 64 \<longrightarrow>
                         w_offset ws j \<noteq> w_offset ws k \<and>
                         (uint (w_nbytes ws j) \<le> blksize p \<and> uint (w_nbytes ws k) \<le> blksize p \<longrightarrow>
                            uint (w_offset ws j) + uint (w_nbytes ws j) \<le> uint (w_offset ws k) \<or>
                            uint (w_offset ws k) + uint (w_nbytes ws k) \<le> uint (w_offset ws j)))
          else w_offset ws 0 = 0 \<and>
               (Suc k < length ws \<longrightarrow>
                  w_offset ws (Suc k) = w_offset ws k + w_nbytes ws k \<and>
                  (word_of_int (blksize p) \<noteq> (0 :: 64 word) \<and>
                   unat (w_offset ws k) + unat (w_nbytes ws k) < 2 ^ 64 \<longrightarrow>
                     w_offset ws k < w_offset ws (Suc k)))"
  proof (cases "iseekable p")
    case True
    have off: "w_offset ws j = (word_of_int (w_source (ws ! j)) - 1) * word_of_int (blksize p)"
      if "j < length ws" for j
      using write_ok_last_state [OF ws that] True by (simp add: write_ok_def w_offset_def)
    have "w_offset ws j \<noteq> w_offset ws k \<and>
        (uint (w_nbytes ws j) \<le> blksize p \<and> uint (w_nbytes ws k) \<le> blksize p \<longrightarrow>
           uint (w_offset ws j) + uint (w_nbytes ws j) \<le> uint (w_offset ws k) \<or>
           uint (w_offset ws k) + uint (w_nbytes ws k) \<le> uint (w_offset ws j))"
      if "j < k" "0 < blksize p" "w_source (ws ! j) * blksize p \<le> 2 ^ 64"
        "w_source (ws ! k) * blksize p \<le> 2 ^ 64" for j
    proof -
      have j: "j < length ws" using that(1) assms(4) by simp
      from block_offsets_differ [OF pos [OF j] pos [OF assms(4)] src [OF that(1)] that(2,3,4)]
      have 1: "w_offset ws j \<noteq> w_offset ws k"
        by (simp only: off [OF j] off [OF assms(4)] not_False_eq_True)
      have 2: "uint (w_offset ws j) + uint (w_nbytes ws j) \<le> uint (w_offset ws k) \<or>
          uint (w_offset ws k) + uint (w_nbytes ws k) \<le> uint (w_offset ws j)"
        if "uint (w_nbytes ws j) \<le> blksize p" "uint (w_nbytes ws k) \<le> blksize p"
        unfolding off [OF j] off [OF assms(4)]
        using pos [OF j] pos [OF assms(4)] src [OF \<open>j < k\<close>] \<open>0 < blksize p\<close>
          \<open>w_source (ws ! j) * blksize p \<le> 2 ^ 64\<close> \<open>w_source (ws ! k) * blksize p \<le> 2 ^ 64\<close> that
        by (rule blocks_apart)
      from 1 2 show ?thesis by blast
    qed
    with True off [OF assms(4)] show ?thesis by simp
  next
    case False
    have "0 < length ws" using assms(4) by linarith
    from write_ok_last_state [OF ws this] False have z: "w_offset ws 0 = 0"
      by (simp add: write_ok_def w_offset_def nbytes_total_def)
    from write_ok_last_state [OF ws assms(4)] False
    have k: "w_offset ws k = nbytes_total (take k ws)"
      and nz: "word_of_int (blksize p) \<noteq> (0 :: 64 word) \<longrightarrow> w_nbytes ws k \<noteq> 0"
      by (simp_all add: write_ok_def w_offset_def w_nbytes_def)
    have step: "w_offset ws (Suc k) = w_offset ws k + w_nbytes ws k" if "Suc k < length ws"
      using write_ok_last_state [OF ws that] False k nbytes_total_take_Suc [OF assms(4)]
      by (simp add: write_ok_def w_offset_def w_nbytes_def)
    have "w_offset ws k < w_offset ws (Suc k)"
      if "Suc k < length ws" "word_of_int (blksize p) \<noteq> (0 :: 64 word)"
        "unat (w_offset ws k) + unat (w_nbytes ws k) < 2 ^ 64"
      using step [OF that(1)] nz that(2,3) word_less_add_nonzero [of "w_nbytes ws k" "w_offset ws k"]
      by simp
    with False z step show ?thesis by simp
  qed
  from blk src rest show ?thesis by blast
qed

theorem seekable_output_offsets_witness:
  "oseekable file_params \<and> iseekable file_params \<and> Suc 0 < length (aio_writes (file_state 5)) \<and>
   map w_source (aio_writes (file_state 5)) = [2, 1] \<and>
   block_of (file_state 5) 1 = Some (w_block (aio_writes (file_state 5) ! Suc 0)) \<and>
   w_block (aio_writes (file_state 5) ! Suc 0) = (4096, 512) \<and>
   w_source (aio_writes (file_state 5) ! 0) \<noteq> w_source (aio_writes (file_state 5) ! Suc 0) \<and>
   w_offset (aio_writes (file_state 5)) (Suc 0) =
     (word_of_int (w_source (aio_writes (file_state 5) ! Suc 0)) - 1) * word_of_int (blksize file_params) \<and>
   w_offset (aio_writes (file_state 5)) 0 \<noteq> w_offset (aio_writes (file_state 5)) (Suc 0) \<and>
   (uint (w_offset (aio_writes (file_state 5)) 0) + uint (w_nbytes (aio_writes (file_state 5)) 0) \<le>
      uint (w_offset (aio_writes (file_state 5)) (Suc 0)) \<or>
    uint (w_offset (aio_writes (file_state 5)) (Suc 0)) +
      uint (w_nbytes (aio_writes (file_state 5)) (Suc 0)) \<le>
      uint (w_offset (aio_writes (file_state 5)) 0)) \<and>
   oseekable pipe_to_file_params \<and> \<not> iseekable pipe_to_file_params \<and>
   Suc 0 < length (aio_writes (pipe_to_file_state 6)) \<and>
   w_offset (aio_writes (pipe_to_file_state 6)) 0 = 0 \<and>
   w_offset (aio_writes (pipe_to_file_state 6)) (Suc 0) =
     w_offset (aio_writes (pipe_to_file_state 6)) 0 + w_nbytes (aio_writes (pipe_to_file_state 6)) 0 \<and>
   w_offset (aio_writes (pipe_to_file_state 6)) 0 < w_offset (aio_writes (pipe_to_file_state 6)) (Suc 0)"
proof -
  have a: "oseekable file_params" "iseekable file_params" "0 < blksize file_params"
    by (simp_all add: file_params_def)
  have an: "Suc 0 < length (aio_writes (file_state 5))" by code_simp
  have asrc: "map w_source (aio_writes (file_state 5)) = [2, 1]"
    "w_source (aio_writes (file_state 5) ! 0) = 2" "w_source (aio_writes (file_state 5) ! Suc 0) = 1"
    "w_block (aio_writes (file_state 5) ! Suc 0) = (4096, 512)"
    by code_simp+
  have ab: "w_source (aio_writes (file_state 5) ! 0) * blksize file_params \<le> 2 ^ 64"
    "w_source (aio_writes (file_state 5) ! Suc 0) * blksize file_params \<le> 2 ^ 64"
    unfolding asrc by (simp_all add: file_params_def)
  have ac: "uint (w_nbytes (aio_writes (file_state 5)) 0) \<le> blksize file_params"
    "uint (w_nbytes (aio_writes (file_state 5)) (Suc 0)) \<le> blksize file_params"
    by code_simp+
  have ae: "file_state 5 =
      last_state (main_loop file_params (take 5 file_run) (init_state file_params fd_in fd_out))"
    by (simp add: file_state_def)
  have b: "oseekable pipe_to_file_params" "\<not> iseekable pipe_to_file_params"
    "word_of_int (blksize pipe_to_file_params) \<noteq> (0 :: 64 word)"
    by (simp_all add: pipe_to_file_params_def)
  have bn: "0 < length (aio_writes (pipe_to_file_state 6))"
    "Suc 0 < length (aio_writes (pipe_to_file_state 6))" by code_simp+
  have bv: "w_offset (aio_writes (pipe_to_file_state 6)) 0 = 0"
    "w_nbytes (aio_writes (pipe_to_file_state 6)) 0 = 512" by code_simp+
  have bw: "unat (w_offset (aio_writes (pipe_to_file_state 6)) 0) +
      unat (w_nbytes (aio_writes (pipe_to_file_state 6)) 0) < 2 ^ 64"
    unfolding bv by simp
  have be: "pipe_to_file_state 6 =
      last_state (main_loop pipe_to_file_params (take 6 pipe_run)
        (init_state pipe_to_file_params fd_in fd_out))"
    by (simp add: pipe_to_file_state_def)
  note t1 = seekable_output_offsets [OF a(1) ae refl an, unfolded if_P [OF a(2)]]
  have 1: "block_of (file_state 5) 1 = Some (w_block (aio_writes (file_state 5) ! Suc 0))"
    using t1 asrc(3) by simp
  have 2: "w_source (aio_writes (file_state 5) ! 0) \<noteq> w_source (aio_writes (file_state 5) ! Suc 0)"
    "w_offset (aio_writes (file_state 5)) (Suc 0) =
      (word_of_int (w_source (aio_writes (file_state 5) ! Suc 0)) - 1) * word_of_int (blksize file_params)"
    "w_offset (aio_writes (file_state 5)) 0 \<noteq> w_offset (aio_writes (file_state 5)) (Suc 0)"
    "uint (w_offset (aio_writes (file_state 5)) 0) + uint (w_nbytes (aio_writes (file_state 5)) 0) \<le>
       uint (w_offset (aio_writes (file_state 5)) (Suc 0)) \<or>
     uint (w_offset (aio_writes (file_state 5)) (Suc 0)) +
       uint (w_nbytes (aio_writes (file_state 5)) (Suc 0)) \<le>
       uint (w_offset (aio_writes (file_state 5)) 0)"
    using t1 a(3) ab ac by blast+
  note t2 = seekable_output_offsets [OF b(1) be refl bn(1), unfolded if_not_P [OF b(2)]]
  have 3: "w_offset (aio_writes (pipe_to_file_state 6)) 0 = 0"
    "w_offset (aio_writes (pipe_to_file_state 6)) (Suc 0) =
       w_offset (aio_writes (pipe_to_file_state 6)) 0 + w_nbytes (aio_writes (pipe_to_file_state 6)) 0"
    "w_offset (aio_writes (pipe_to_file_state 6)) 0 < w_offset (aio_writes (pipe_to_file_state 6)) (Suc 0)"
    using t2 bn(2) b(3) bw by blast+
  show ?thesis using a(1,2) an asrc(1,4) b(1,2) bn(2) 1 2 3 by blast
qed

subsection \<open>Short reads and end of data\<close>

text \<open>
  Claim C4. When the probe of an input slot in progress reports \<open>n\<close> bytes with
  \<open>0 < n < blksize - filled\<close>, the slot stays in progress with \<open>n\<close> more bytes filled
  and the same buffer, offset and request number, and a read of exactly the
  \<open>blksize - filled\<close> bytes still missing is submitted on the same slot, into the buffer
  behind the bytes already there, at file offset \<open>fdoffset + filled\<close> when the input can
  seek and at offset 0 when it cannot. It is not an error: the step does not exit, and
  neither \<open>eof\<close> nor the queue counter changes. (\<open>blksize\<close> is an \<^verbatim>\<open>int\<close>, hence below
  \<open>2 ^ 31\<close>; that \<^verbatim>\<open>aio_read\<close> accepts the request is assumed, a refused submission
  being a different failure.)
\<close>

theorem short_read_resubmitted:
  assumes "i < length (ique s)" and "status (ique s ! i) = QUEITEM_INPROGRESS"
    and "aio_error_i e i = 0" and "aio_return_i e i = n"
    and "0 < n" and "n < blksize p - uint (readyb (ique s ! i))" and "blksize p < 2 ^ 31"
    and "aio_read e i \<noteq> - 1"
  shows "case input_slot p e i s of
           Inl x \<Rightarrow> False
         | Inr s' \<Rightarrow>
             status (ique s' ! i) = QUEITEM_INPROGRESS \<and>
             readyb (ique s' ! i) = readyb (ique s ! i) + word_of_int n \<and>
             uint (readyb (ique s' ! i)) = uint (readyb (ique s ! i)) + n \<and>
             aio_nbytes (aiodata (ique s' ! i)) = word_of_int (blksize p) - readyb (ique s' ! i) \<and>
             uint (aio_nbytes (aiodata (ique s' ! i))) = blksize p - uint (readyb (ique s' ! i)) \<and>
             aio_offset (aiodata (ique s' ! i)) =
               (if iseekable p then fdoffset (ique s ! i) + readyb (ique s' ! i) else 0) \<and>
             aio_buf (aiodata (ique s' ! i)) = buffer (ique s ! i) + readyb (ique s' ! i) \<and>
             aio_fildes (aiodata (ique s' ! i)) = fd (ique s ! i) \<and>
             aio_reads s' = aio_reads s @ [aiodata (ique s' ! i)] \<and>
             buffer (ique s' ! i) = buffer (ique s ! i) \<and>
             fdoffset (ique s' ! i) = fdoffset (ique s ! i) \<and>
             rqnum (ique s' ! i) = rqnum (ique s ! i) \<and>
             eof s' = eof s \<and> iqsize s' = iqsize s \<and> frees s' = frees s"
proof -
  let ?q = "ique s ! i"
  have b: "blksize p < 2 ^ 64" using assms(7) by simp
  have sum: "uint (readyb ?q) + n < 2 ^ 64" using assms(6) b by simp
  have u: "uint (readyb ?q + word_of_int n) = uint (readyb ?q) + n"
    using assms(5) sum by (simp add: uint_plus_of_int)
  have "0 \<le> blksize p" using assms(5,6) uint_ge_0 [of "readyb ?q"] by linarith
  then have "uint (word_of_int (blksize p) :: 64 word) = blksize p"
    using b by (simp add: uint_of_int_small)
  with u assms(6) have ne: "readyb ?q + word_of_int n \<noteq> word_of_int (blksize p)"
    by (metis less_irrefl add.commute less_diff_eq)
  have r: "uint (word_of_int (blksize p) - (readyb ?q + word_of_int n)) =
      blksize p - (uint (readyb ?q) + n)"
    using uint_of_int_minus [of "readyb ?q + word_of_int n" "blksize p"] u assms(6) b by simp
  show ?thesis
    using assms(1-5,8) ne u r
    by (simp add: input_slot_def read_completed_def resubmit_read_def Let_def)
qed

theorem short_read_resubmitted_witness:
  "0 < length (ique (pipe_state 3)) \<and> status (ique (pipe_state 3) ! 0) = QUEITEM_INPROGRESS \<and>
   aio_error_i (pipe_run ! 3) 0 = 0 \<and> aio_return_i (pipe_run ! 3) 0 = 100 \<and>
   (100 :: int) < blksize pipe_params - uint (readyb (ique (pipe_state 3) ! 0)) \<and>
   aio_read (pipe_run ! 3) 0 \<noteq> - 1 \<and>
   (case input_slot pipe_params (pipe_run ! 3) 0 (pipe_state 3) of
           Inl x \<Rightarrow> False
         | Inr s' \<Rightarrow>
             status (ique s' ! 0) = QUEITEM_INPROGRESS \<and>
             readyb (ique s' ! 0) = readyb (ique (pipe_state 3) ! 0) + word_of_int 100 \<and>
             uint (readyb (ique s' ! 0)) = uint (readyb (ique (pipe_state 3) ! 0)) + 100 \<and>
             aio_nbytes (aiodata (ique s' ! 0)) = word_of_int (blksize pipe_params) - readyb (ique s' ! 0) \<and>
             uint (aio_nbytes (aiodata (ique s' ! 0))) = blksize pipe_params - uint (readyb (ique s' ! 0)) \<and>
             aio_offset (aiodata (ique s' ! 0)) =
               (if iseekable pipe_params then fdoffset (ique (pipe_state 3) ! 0) + readyb (ique s' ! 0) else 0) \<and>
             aio_buf (aiodata (ique s' ! 0)) = buffer (ique (pipe_state 3) ! 0) + readyb (ique s' ! 0) \<and>
             aio_fildes (aiodata (ique s' ! 0)) = fd (ique (pipe_state 3) ! 0) \<and>
             aio_reads s' = aio_reads (pipe_state 3) @ [aiodata (ique s' ! 0)] \<and>
             buffer (ique s' ! 0) = buffer (ique (pipe_state 3) ! 0) \<and>
             fdoffset (ique s' ! 0) = fdoffset (ique (pipe_state 3) ! 0) \<and>
             rqnum (ique s' ! 0) = rqnum (ique (pipe_state 3) ! 0) \<and>
             eof s' = eof (pipe_state 3) \<and> iqsize s' = iqsize (pipe_state 3) \<and> frees s' = frees (pipe_state 3))"
proof -
  have h1: "0 < length (ique (pipe_state 3))" by code_simp
  have h2: "status (ique (pipe_state 3) ! 0) = QUEITEM_INPROGRESS" by code_simp
  have h3: "aio_error_i (pipe_run ! 3) 0 = 0" by code_simp
  have h4: "aio_return_i (pipe_run ! 3) 0 = 100" by code_simp
  have h5: "(0 :: int) < 100" by simp
  have h6: "(100 :: int) < blksize pipe_params - uint (readyb (ique (pipe_state 3) ! 0))" by code_simp
  have h7: "blksize pipe_params < 2 ^ 31" by (simp add: pipe_params_def)
  have h8: "aio_read (pipe_run ! 3) 0 \<noteq> - 1" by code_simp
  from short_read_resubmitted [OF h1 h2 h3 h4 h5 h6 h7 h8] h1 h2 h3 h4 h6 h8
  show ?thesis by blast
qed

text \<open>
  Claim C5. When the probe of an input slot in progress reports 0 bytes, \<open>eof\<close> is set, and
  it stays set in whatever state the run is later found; the slot becomes ready, keeping
  its buffer and its bytes, when it already holds some, and otherwise it becomes free, its
  buffer is passed to \<^verbatim>\<open>free\<close>, its pointer is cleared and the queue counter goes down
  by one.
\<close>

theorem read_eof_completion:
  assumes "i < length (ique s)" and "status (ique s ! i) = QUEITEM_INPROGRESS"
    and "aio_error_i e i = 0" and "aio_return_i e i = 0"
  shows "case input_slot p e i s of
           Inl x \<Rightarrow> False
         | Inr s' \<Rightarrow>
             eof s' \<and> eof (last_state (main_loop p es s')) \<and>
             (if readyb (ique s ! i) \<noteq> 0
              then status (ique s' ! i) = QUEITEM_READY \<and>
                   buffer (ique s' ! i) = buffer (ique s ! i) \<and>
                   readyb (ique s' ! i) = readyb (ique s ! i) \<and>
                   frees s' = frees s \<and> iqsize s' = iqsize s
              else status (ique s' ! i) = QUEITEM_FREE \<and>
                   buffer (ique s' ! i) = NULL \<and>
                   frees s' = frees s @ [buffer (ique s ! i)] \<and>
                   iqsize s' = iqsize s - 1)"
proof -
  have step: "case input_slot p e i s of
           Inl x \<Rightarrow> False
         | Inr s' \<Rightarrow>
             eof s' \<and>
             (if readyb (ique s ! i) \<noteq> 0
              then status (ique s' ! i) = QUEITEM_READY \<and>
                   buffer (ique s' ! i) = buffer (ique s ! i) \<and>
                   readyb (ique s' ! i) = readyb (ique s ! i) \<and>
                   frees s' = frees s \<and> iqsize s' = iqsize s
              else status (ique s' ! i) = QUEITEM_FREE \<and>
                   buffer (ique s' ! i) = NULL \<and>
                   frees s' = frees s @ [buffer (ique s ! i)] \<and>
                   iqsize s' = iqsize s - 1)"
    using assms
    by (simp add: input_slot_def read_completed_def release_input_def Let_def)
  show ?thesis
  proof (cases "input_slot p e i s")
    case (Inl a)
    with step show ?thesis by simp
  next
    case (Inr s')
    with step have "eof s'" by simp
    then have "eof (last_state (main_loop p es s'))" by (rule eof_latched)
    with step Inr show ?thesis by simp
  qed
qed

theorem read_eof_completion_witness:
  "0 < length (ique (pipe_state 4)) \<and> status (ique (pipe_state 4) ! 0) = QUEITEM_INPROGRESS \<and>
   aio_error_i (pipe_run ! 4) 0 = 0 \<and> aio_return_i (pipe_run ! 4) 0 = 0 \<and>
   readyb (ique (pipe_state 4) ! 0) = 100 \<and>
   (case input_slot pipe_params (pipe_run ! 4) 0 (pipe_state 4) of
           Inl x \<Rightarrow> False
         | Inr s' \<Rightarrow>
             eof s' \<and> eof (last_state (main_loop pipe_params (drop 5 pipe_run) s')) \<and>
             (if readyb (ique (pipe_state 4) ! 0) \<noteq> 0
              then status (ique s' ! 0) = QUEITEM_READY \<and>
                   buffer (ique s' ! 0) = buffer (ique (pipe_state 4) ! 0) \<and>
                   readyb (ique s' ! 0) = readyb (ique (pipe_state 4) ! 0) \<and>
                   frees s' = frees (pipe_state 4) \<and> iqsize s' = iqsize (pipe_state 4)
              else status (ique s' ! 0) = QUEITEM_FREE \<and>
                   buffer (ique s' ! 0) = NULL \<and>
                   frees s' = frees (pipe_state 4) @ [buffer (ique (pipe_state 4) ! 0)] \<and>
                   iqsize s' = iqsize (pipe_state 4) - 1)) \<and>
   0 < length (ique (pipe_state 3)) \<and> status (ique (pipe_state 3) ! 0) = QUEITEM_INPROGRESS \<and>
   readyb (ique (pipe_state 3) ! 0) = 0 \<and>
   (case input_slot pipe_params (pipe_run ! 4) 0 (pipe_state 3) of
           Inl x \<Rightarrow> False
         | Inr s' \<Rightarrow>
             eof s' \<and> eof (last_state (main_loop pipe_params (drop 5 pipe_run) s')) \<and>
             (if readyb (ique (pipe_state 3) ! 0) \<noteq> 0
              then status (ique s' ! 0) = QUEITEM_READY \<and>
                   buffer (ique s' ! 0) = buffer (ique (pipe_state 3) ! 0) \<and>
                   readyb (ique s' ! 0) = readyb (ique (pipe_state 3) ! 0) \<and>
                   frees s' = frees (pipe_state 3) \<and> iqsize s' = iqsize (pipe_state 3)
              else status (ique s' ! 0) = QUEITEM_FREE \<and>
                   buffer (ique s' ! 0) = NULL \<and>
                   frees s' = frees (pipe_state 3) @ [buffer (ique (pipe_state 3) ! 0)] \<and>
                   iqsize s' = iqsize (pipe_state 3) - 1))"
proof -
  have h1: "0 < length (ique (pipe_state 4))" by code_simp
  have h2: "status (ique (pipe_state 4) ! 0) = QUEITEM_INPROGRESS" by code_simp
  have h3: "aio_error_i (pipe_run ! 4) 0 = 0" by code_simp
  have h4: "aio_return_i (pipe_run ! 4) 0 = 0" by code_simp
  have r: "readyb (ique (pipe_state 4) ! 0) = 100" by code_simp
  have g1: "0 < length (ique (pipe_state 3))" by code_simp
  have g2: "status (ique (pipe_state 3) ! 0) = QUEITEM_INPROGRESS" by code_simp
  have r': "readyb (ique (pipe_state 3) ! 0) = 0" by code_simp
  from read_eof_completion [OF h1 h2 h3 h4, of pipe_params "drop 5 pipe_run"]
    read_eof_completion [OF g1 g2 h3 h4, of pipe_params "drop 5 pipe_run"] h1 h2 h3 h4 r g1 g2 r'
  show ?thesis by blast
qed

subsection \<open>A full destination\<close>

text \<open>
  Claim C6, as stated, fails in its last part: a run in which the probe of a write reports
  \<^verbatim>\<open>EFBIG\<close> need not exit with the success status.
  \<^item> In the run to the full destination, let the read that is in flight after the third
    iteration fail with \<^verbatim>\<open>EIO\<close>: the process exits with \<^verbatim>\<open>EXIT_FAILURE\<close>.
  \<^item> In the same run, let that read stay in flight: an iteration leaves the state as it
    is, and the loop is not left.
  \<^item> In the same run, let the last \<^verbatim>\<open>gettimeofday\<close> fail: the process exits with
    \<^verbatim>\<open>EXIT_FAILURE\<close>.
  \<^item> In the run of the growing file the output cannot seek. Let its first write meet
    \<^verbatim>\<open>EFBIG\<close>. No answer of the environment ends the process and every request is
    finished when it is probed, but read 2 is dropped and read 3 stays ready, since the
    write of number 2 never comes: the state is stuck, an iteration leaves it as it is
    whatever the environment answers (lemma \<open>stuck_forever\<close>), and the loop is never
    left.
\<close>

theorem destination_full_counterexample:
  "status (oque (full_state 2) ! 0) = QUEITEM_INPROGRESS \<and> aio_error_o (full_run ! 2) 0 = EFBIG \<and>
   exit_status 0 (main_loop full_params (take 3 full_run @ [read_fails])
     (init_state full_params fd_in fd_out)) = Some EXIT_FAILURE \<and>
   scan full_params idle (full_state 3) = Inr (full_state 3) \<and> \<not> all_done (full_state 3) \<and>
   exit_status 0 (main_loop full_params (take 3 full_run @ replicate 8 idle)
     (init_state full_params fd_in fd_out)) = None \<and>
   exit_status (- 1) (main_loop full_params full_run (init_state full_params fd_in fd_out)) =
     Some EXIT_FAILURE \<and>
   \<not> oseekable gap_params \<and>
   main_loop gap_params (take 2 (gap_run (failed_with EFBIG))) (init_state gap_params fd_in fd_out) =
     Blocked (gap_state (failed_with EFBIG) 2) \<and>
   status (oque (gap_state (failed_with EFBIG) 2) ! 0) = QUEITEM_INPROGRESS \<and>
   aio_error_o (gap_run (failed_with EFBIG) ! 2) 0 = EFBIG \<and>
   list_all (calm gap_params) (gap_run (failed_with EFBIG)) \<and>
   settling gap_params (drop 2 (gap_run (failed_with EFBIG)) @ replicate 8 idle)
     (gap_state (failed_with EFBIG) 2) \<and>
   scan gap_params idle (gap_state (failed_with EFBIG) 4) = Inr (gap_state (failed_with EFBIG) 4) \<and>
   \<not> all_done (gap_state (failed_with EFBIG) 4) \<and> \<not> in_order (gap_state (failed_with EFBIG) 4) \<and>
   stuck gap_params (gap_state (failed_with EFBIG) 4) \<and>
   exit_status 0 (main_loop gap_params (gap_run (failed_with EFBIG) @ replicate 8 idle)
     (init_state gap_params fd_in fd_out)) = None"
  by code_simp

text \<open>
  Claim C6, amended. Let output slot \<open>i\<close> be in progress and let its probe report
  \<^verbatim>\<open>EFBIG\<close>.
  \<^item> Whatever the state in which the slot is probed, the step does not exit: it sets
    \<open>eof\<close>, passes the slot's buffer to \<^verbatim>\<open>free\<close>, clears the pointer, marks the slot
    free and counts the queue down; and \<open>eof\<close> is still set in the state any later run
    ends in.
  \<^item> Let the probe happen in the iteration \<open>e\<close> that starts in a state \<open>s\<close> at the head
    of the loop of some run, and let \<open>e\<close> and the iterations \<open>cs\<close> after it be calm: no
    probe reports any other error, and allocations and submissions are accepted. Then the
    iteration ends with \<open>eof\<close> set and the slot free, its pointer null and its buffer
    freed, and the process does not exit on an error during these iterations.
  \<^item> Let, moreover, the environment settle in the iterations \<open>ss\<close> that follow
    (\<open>settling\<close>: every request in flight has finished when it is probed, a read with the
    rest of its block or with end of data or cancelled, a write normally, cancelled or with
    \<^verbatim>\<open>EFBIG\<close>, and allocations and submissions are accepted), let the final
    \<^verbatim>\<open>gettimeofday\<close> succeed, and let the output be able to seek or else the ready
    blocks stay in order in these iterations (\<open>in_order_run\<close>: while a block is ready, the
    block that is next to be written has not been dropped). Then the loop is left through
    the \<^verbatim>\<open>break\<close> of line 904 within the first \<open>3 * imaxqsize + omaxqsize + 1\<close> of
    these iterations, if not before, and \<^verbatim>\<open>main\<close> returns \<^verbatim>\<open>EXIT_SUCCESS\<close>.
\<close>

theorem destination_full:
  assumes "i < length (oque s)" and "status (oque s ! i) = QUEITEM_INPROGRESS"
    and "aio_error_o e i = EFBIG"
  shows "(case output_slot p e i (j, s) of
            Inl x \<Rightarrow> False
          | Inr (j', s') \<Rightarrow>
              eof s' \<and> status (oque s' ! i) = QUEITEM_FREE \<and> buffer (oque s' ! i) = NULL \<and>
              frees s' = frees s @ [buffer (oque s ! i)] \<and> oqsize s' = oqsize s - 1 \<and>
              eof (last_state (main_loop p rest s'))) \<and>
         (main_loop p pre (init_state p ifd ofd) = Blocked s \<and> list_all (calm p) (e # cs) \<longrightarrow>
            (case scan p e s of
               Inl x \<Rightarrow> False
             | Inr s' \<Rightarrow>
                 eof s' \<and> status (oque s' ! i) = QUEITEM_FREE \<and> buffer (oque s' ! i) = NULL \<and>
                 buffer (oque s ! i) \<in> set (frees s')) \<and>
            (case main_loop p (e # cs) s of
               Aborted c s' \<Rightarrow> False | Left s' \<Rightarrow> eof s' | Blocked s' \<Rightarrow> eof s') \<and>
            ((oseekable p \<or> in_order_run p ss (last_state (main_loop p (e # cs) s))) \<and>
             settling p ss (last_state (main_loop p (e # cs) s)) \<and>
             3 * imaxqsize p + omaxqsize p < length ss \<and> tod \<noteq> - 1 \<longrightarrow>
               (case main_loop p (e # cs @ ss) s of Left s' \<Rightarrow> eof s' | _ \<Rightarrow> False) \<and>
               exit_status tod (main_loop p (e # cs @ ss) s) = Some EXIT_SUCCESS))"
proof -
  have step: "case output_slot p e i (j, s) of
            Inl x \<Rightarrow> False
          | Inr (j', s') \<Rightarrow>
              eof s' \<and> status (oque s' ! i) = QUEITEM_FREE \<and> buffer (oque s' ! i) = NULL \<and>
              frees s' = frees s @ [buffer (oque s ! i)] \<and> oqsize s' = oqsize s - 1 \<and>
              eof (last_state (main_loop p rest s'))"
  proof (cases "output_slot p e i (j, s)")
    case (Inl a)
    with efbig_output_slot [OF assms, of p j] show ?thesis by (cases a) simp
  next
    case (Inr x)
    obtain j' s' where x: "x = (j', s')" by (cases x)
    with efbig_output_slot [OF assms, of p j] Inr have "eof s'" by simp
    then have "eof (last_state (main_loop p rest s'))" by (rule eof_latched)
    with efbig_output_slot [OF assms, of p j] Inr x show ?thesis by simp
  qed
  have run: "(case scan p e s of
               Inl x \<Rightarrow> False
             | Inr s' \<Rightarrow>
                 eof s' \<and> status (oque s' ! i) = QUEITEM_FREE \<and> buffer (oque s' ! i) = NULL \<and>
                 buffer (oque s ! i) \<in> set (frees s')) \<and>
            (case main_loop p (e # cs) s of
               Aborted c s' \<Rightarrow> False | Left s' \<Rightarrow> eof s' | Blocked s' \<Rightarrow> eof s') \<and>
            ((oseekable p \<or> in_order_run p ss (last_state (main_loop p (e # cs) s))) \<and>
             settling p ss (last_state (main_loop p (e # cs) s)) \<and>
             3 * imaxqsize p + omaxqsize p < length ss \<and> tod \<noteq> - 1 \<longrightarrow>
               (case main_loop p (e # cs @ ss) s of Left s' \<Rightarrow> eof s' | _ \<Rightarrow> False) \<and>
               exit_status tod (main_loop p (e # cs @ ss) s) = Some EXIT_SUCCESS)"
    if head: "main_loop p pre (init_state p ifd ofd) = Blocked s"
      and calm: "list_all (calm p) (e # cs)"
  proof -
    from counted_main_loop [of p pre ifd ofd] head have c: "counted p s" by simp
    with assms(1) have i: "i < omaxqsize p" by (simp add: counted_def)
    from calm have ce: "calm p e" and ccs: "list_all (calm p) cs" by simp_all
    note sf = scan_first [OF c ce i assms(2,3)]
    show ?thesis
    proof (cases "scan p e s")
      case (Inl a)
      with sf show ?thesis by (cases a) simp
    next
      case (Inr s1)
      with sf have c1: "counted p s1" and e1: "eof s1"
        and rel: "status (oque s1 ! i) = QUEITEM_FREE" "buffer (oque s1 ! i) = NULL"
          "buffer (oque s ! i) \<in> set (frees s1)"
        by simp_all
      have lp: "loop_post (\<lambda>s'. counted p s' \<and> eof s') (\<lambda>s. False) (main_loop p (e # cs) s)"
        using calm_main_loop [OF ccs c1 e1] Inr c1 e1 by simp
      have quiet: "case main_loop p (e # cs) s of
               Aborted c s' \<Rightarrow> False | Left s' \<Rightarrow> eof s' | Blocked s' \<Rightarrow> eof s'"
        using lp by (cases "main_loop p (e # cs) s") simp_all
      have app: "main_loop p (e # cs @ ss) s =
          (case main_loop p (e # cs) s of Blocked s' \<Rightarrow> main_loop p ss s' | r \<Rightarrow> r)"
        using main_loop_append [of p "e # cs" ss s] by simp
      have "\<exists>s'. main_loop p (e # cs @ ss) s = Left s' \<and> eof s'"
        if os: "oseekable p \<or> in_order_run p ss (last_state (main_loop p (e # cs) s))"
          and st: "settling p ss (last_state (main_loop p (e # cs) s))"
          and len: "3 * imaxqsize p + omaxqsize p < length ss"
      proof (cases "main_loop p (e # cs) s")
        case (Aborted c0 s')
        with lp show ?thesis by simp
      next
        case (Left s')
        with lp app show ?thesis by simp
      next
        case (Blocked s2)
        with lp have c2: "counted p s2" and e2: "eof s2" by simp_all
        from st Blocked have st2: "settling p ss s2" by simp
        from os Blocked have os2: "oseekable p \<or> in_order_run p ss s2" by simp
        from pending_le [OF c2] len have "pending s2 < length ss" by linarith
        from drain [OF _ c2 e2 st2 os2 this] i obtain s' where l: "main_loop p ss s2 = Left s'"
          by fastforce
        from main_loop_Left_done [OF l] have "eof s'" by (simp add: all_done_def)
        with l app Blocked show ?thesis by simp
      qed
      then have "(case main_loop p (e # cs @ ss) s of Left s' \<Rightarrow> eof s' | _ \<Rightarrow> False) \<and>
          exit_status tod (main_loop p (e # cs @ ss) s) = Some EXIT_SUCCESS"
        if "oseekable p \<or> in_order_run p ss (last_state (main_loop p (e # cs) s))"
          "settling p ss (last_state (main_loop p (e # cs) s))"
          "3 * imaxqsize p + omaxqsize p < length ss" "tod \<noteq> - 1"
        using that by (auto simp add: EXIT_SUCCESS_def)
      with Inr e1 rel quiet show ?thesis by simp
    qed
  qed
  from step run show ?thesis by blast
qed

theorem destination_full_witness:
  "0 < length (oque (full_state 2)) \<and> status (oque (full_state 2) ! 0) = QUEITEM_INPROGRESS \<and>
   aio_error_o (full_run ! 2) 0 = EFBIG \<and>
   (case output_slot full_params (full_run ! 2) 0 (0, (full_state 2)) of
            Inl x \<Rightarrow> False
          | Inr (j', s') \<Rightarrow>
              eof s' \<and> status (oque s' ! 0) = QUEITEM_FREE \<and> buffer (oque s' ! 0) = NULL \<and>
              frees s' = frees (full_state 2) @ [buffer (oque (full_state 2) ! 0)] \<and> oqsize s' = oqsize (full_state 2) - 1 \<and>
              eof (last_state (main_loop full_params full_rest s'))) \<and>
   main_loop full_params (take 2 full_run) (init_state full_params fd_in fd_out) =
     Blocked (full_state 2) \<and>
   list_all (calm full_params) ((full_run ! 2) # [idle]) \<and>
   (case scan full_params (full_run ! 2) (full_state 2) of
               Inl x \<Rightarrow> False
             | Inr s' \<Rightarrow>
                 eof s' \<and> status (oque s' ! 0) = QUEITEM_FREE \<and> buffer (oque s' ! 0) = NULL \<and>
                 buffer (oque (full_state 2) ! 0) \<in> set (frees s')) \<and>
   (case main_loop full_params ((full_run ! 2) # [idle]) (full_state 2) of
               Aborted c s' \<Rightarrow> False | Left s' \<Rightarrow> eof s' | Blocked s' \<Rightarrow> eof s') \<and>
   oseekable full_params \<and>
   settling full_params full_rest
     (last_state (main_loop full_params ((full_run ! 2) # [idle]) (full_state 2))) \<and>
   3 * imaxqsize full_params + omaxqsize full_params < length full_rest \<and>
   (case main_loop full_params ((full_run ! 2) # [idle] @ full_rest) (full_state 2) of Left s' \<Rightarrow> eof s' | _ \<Rightarrow> False) \<and>
               exit_status (0 :: int) (main_loop full_params ((full_run ! 2) # [idle] @ full_rest) (full_state 2)) = Some EXIT_SUCCESS \<and>
   \<not> eof (full_state 2) \<and>
   main_loop full_params ((full_run ! 2) # [idle]) (full_state 2) = Blocked (full_state 3) \<and>
   \<not> settles full_params idle (full_state 3) \<and>
   length (aio_writes (last_state (main_loop full_params ((full_run ! 2) # [idle] @ full_rest)
     (full_state 2)))) = 2 \<and>
   0 < length (oque (pipe_full_state 2)) \<and>
   status (oque (pipe_full_state 2) ! 0) = QUEITEM_INPROGRESS \<and>
   main_loop pipe_params (take 2 full_run) (init_state pipe_params fd_in fd_out) =
     Blocked (pipe_full_state 2) \<and>
   list_all (calm pipe_params) ((full_run ! 2) # []) \<and>
   \<not> oseekable pipe_params \<and>
   in_order_run pipe_params full_rest
     (last_state (main_loop pipe_params ((full_run ! 2) # []) (pipe_full_state 2))) \<and>
   settling pipe_params full_rest
     (last_state (main_loop pipe_params ((full_run ! 2) # []) (pipe_full_state 2))) \<and>
   3 * imaxqsize pipe_params + omaxqsize pipe_params < length full_rest \<and>
   (case main_loop pipe_params ((full_run ! 2) # [] @ full_rest) (pipe_full_state 2) of Left s' \<Rightarrow> eof s' | _ \<Rightarrow> False) \<and>
               exit_status (0 :: int) (main_loop pipe_params ((full_run ! 2) # [] @ full_rest) (pipe_full_state 2)) = Some EXIT_SUCCESS"
proof -
  have h1: "0 < length (oque (full_state 2))" by code_simp
  have h2: "status (oque (full_state 2) ! 0) = QUEITEM_INPROGRESS" by code_simp
  have h3: "aio_error_o (full_run ! 2) 0 = EFBIG" by code_simp
  have r1: "main_loop full_params (take 2 full_run) (init_state full_params fd_in fd_out) =
      Blocked (full_state 2)" by code_simp
  have r2: "list_all (calm full_params) ((full_run ! 2) # [idle])" by code_simp
  have x1: "oseekable full_params" by (simp add: full_params_def)
  have x2: "settling full_params full_rest
      (last_state (main_loop full_params ((full_run ! 2) # [idle]) (full_state 2)))" by code_simp
  have x3: "3 * imaxqsize full_params + omaxqsize full_params < length full_rest" by code_simp
  have x4: "(0 :: int) \<noteq> - 1" by simp
  have more: "\<not> eof (full_state 2)"
    "main_loop full_params ((full_run ! 2) # [idle]) (full_state 2) = Blocked (full_state 3)"
    "\<not> settles full_params idle (full_state 3)"
    "length (aio_writes (last_state (main_loop full_params ((full_run ! 2) # [idle] @ full_rest)
       (full_state 2)))) = 2"
    by code_simp+
  have t: "(case output_slot full_params (full_run ! 2) 0 (0, (full_state 2)) of
            Inl x \<Rightarrow> False
          | Inr (j', s') \<Rightarrow>
              eof s' \<and> status (oque s' ! 0) = QUEITEM_FREE \<and> buffer (oque s' ! 0) = NULL \<and>
              frees s' = frees (full_state 2) @ [buffer (oque (full_state 2) ! 0)] \<and> oqsize s' = oqsize (full_state 2) - 1 \<and>
              eof (last_state (main_loop full_params full_rest s'))) \<and>
         (main_loop full_params (take 2 full_run) (init_state full_params fd_in fd_out) = Blocked (full_state 2) \<and> list_all (calm full_params) ((full_run ! 2) # [idle]) \<longrightarrow>
            (case scan full_params (full_run ! 2) (full_state 2) of
               Inl x \<Rightarrow> False
             | Inr s' \<Rightarrow>
                 eof s' \<and> status (oque s' ! 0) = QUEITEM_FREE \<and> buffer (oque s' ! 0) = NULL \<and>
                 buffer (oque (full_state 2) ! 0) \<in> set (frees s')) \<and>
            (case main_loop full_params ((full_run ! 2) # [idle]) (full_state 2) of
               Aborted c s' \<Rightarrow> False | Left s' \<Rightarrow> eof s' | Blocked s' \<Rightarrow> eof s') \<and>
            ((oseekable full_params \<or> in_order_run full_params full_rest (last_state (main_loop full_params ((full_run ! 2) # [idle]) (full_state 2)))) \<and>
             settling full_params full_rest (last_state (main_loop full_params ((full_run ! 2) # [idle]) (full_state 2))) \<and>
             3 * imaxqsize full_params + omaxqsize full_params < length full_rest \<and> (0 :: int) \<noteq> - 1 \<longrightarrow>
               (case main_loop full_params ((full_run ! 2) # [idle] @ full_rest) (full_state 2) of Left s' \<Rightarrow> eof s' | _ \<Rightarrow> False) \<and>
               exit_status (0 :: int) (main_loop full_params ((full_run ! 2) # [idle] @ full_rest) (full_state 2)) = Some EXIT_SUCCESS))"
    by (rule destination_full [OF h1 h2 h3])
  from t have a: "(case output_slot full_params (full_run ! 2) 0 (0, (full_state 2)) of
            Inl x \<Rightarrow> False
          | Inr (j', s') \<Rightarrow>
              eof s' \<and> status (oque s' ! 0) = QUEITEM_FREE \<and> buffer (oque s' ! 0) = NULL \<and>
              frees s' = frees (full_state 2) @ [buffer (oque (full_state 2) ! 0)] \<and> oqsize s' = oqsize (full_state 2) - 1 \<and>
              eof (last_state (main_loop full_params full_rest s')))"
    by blast
  from t r1 r2 have b: "(case scan full_params (full_run ! 2) (full_state 2) of
               Inl x \<Rightarrow> False
             | Inr s' \<Rightarrow>
                 eof s' \<and> status (oque s' ! 0) = QUEITEM_FREE \<and> buffer (oque s' ! 0) = NULL \<and>
                 buffer (oque (full_state 2) ! 0) \<in> set (frees s'))"
    "(case main_loop full_params ((full_run ! 2) # [idle]) (full_state 2) of
               Aborted c s' \<Rightarrow> False | Left s' \<Rightarrow> eof s' | Blocked s' \<Rightarrow> eof s')"
    by blast+
  from t r1 r2 x1 x2 x3 x4 have c: "(case main_loop full_params ((full_run ! 2) # [idle] @ full_rest) (full_state 2) of Left s' \<Rightarrow> eof s' | _ \<Rightarrow> False) \<and>
               exit_status (0 :: int) (main_loop full_params ((full_run ! 2) # [idle] @ full_rest) (full_state 2)) = Some EXIT_SUCCESS"
    by blast
  have g1: "0 < length (oque (pipe_full_state 2))" by code_simp
  have g2: "status (oque (pipe_full_state 2) ! 0) = QUEITEM_INPROGRESS" by code_simp
  have q1: "main_loop pipe_params (take 2 full_run) (init_state pipe_params fd_in fd_out) =
      Blocked (pipe_full_state 2)" by code_simp
  have q2: "list_all (calm pipe_params) ((full_run ! 2) # [])" by code_simp
  have y1: "\<not> oseekable pipe_params" by (simp add: pipe_params_def)
  have y2: "in_order_run pipe_params full_rest
      (last_state (main_loop pipe_params ((full_run ! 2) # []) (pipe_full_state 2)))" by code_simp
  have y3: "settling pipe_params full_rest
      (last_state (main_loop pipe_params ((full_run ! 2) # []) (pipe_full_state 2)))" by code_simp
  have y4: "3 * imaxqsize pipe_params + omaxqsize pipe_params < length full_rest" by code_simp
  have u: "(case output_slot pipe_params (full_run ! 2) 0 (0, (pipe_full_state 2)) of
            Inl x \<Rightarrow> False
          | Inr (j', s') \<Rightarrow>
              eof s' \<and> status (oque s' ! 0) = QUEITEM_FREE \<and> buffer (oque s' ! 0) = NULL \<and>
              frees s' = frees (pipe_full_state 2) @ [buffer (oque (pipe_full_state 2) ! 0)] \<and> oqsize s' = oqsize (pipe_full_state 2) - 1 \<and>
              eof (last_state (main_loop pipe_params full_rest s'))) \<and>
         (main_loop pipe_params (take 2 full_run) (init_state pipe_params fd_in fd_out) = Blocked (pipe_full_state 2) \<and> list_all (calm pipe_params) ((full_run ! 2) # []) \<longrightarrow>
            (case scan pipe_params (full_run ! 2) (pipe_full_state 2) of
               Inl x \<Rightarrow> False
             | Inr s' \<Rightarrow>
                 eof s' \<and> status (oque s' ! 0) = QUEITEM_FREE \<and> buffer (oque s' ! 0) = NULL \<and>
                 buffer (oque (pipe_full_state 2) ! 0) \<in> set (frees s')) \<and>
            (case main_loop pipe_params ((full_run ! 2) # []) (pipe_full_state 2) of
               Aborted c s' \<Rightarrow> False | Left s' \<Rightarrow> eof s' | Blocked s' \<Rightarrow> eof s') \<and>
            ((oseekable pipe_params \<or> in_order_run pipe_params full_rest (last_state (main_loop pipe_params ((full_run ! 2) # []) (pipe_full_state 2)))) \<and>
             settling pipe_params full_rest (last_state (main_loop pipe_params ((full_run ! 2) # []) (pipe_full_state 2))) \<and>
             3 * imaxqsize pipe_params + omaxqsize pipe_params < length full_rest \<and> (0 :: int) \<noteq> - 1 \<longrightarrow>
               (case main_loop pipe_params ((full_run ! 2) # [] @ full_rest) (pipe_full_state 2) of Left s' \<Rightarrow> eof s' | _ \<Rightarrow> False) \<and>
               exit_status (0 :: int) (main_loop pipe_params ((full_run ! 2) # [] @ full_rest) (pipe_full_state 2)) = Some EXIT_SUCCESS))"
    by (rule destination_full [OF g1 g2 h3])
  from u q1 q2 y2 y3 y4 x4 have d: "(case main_loop pipe_params ((full_run ! 2) # [] @ full_rest) (pipe_full_state 2) of Left s' \<Rightarrow> eof s' | _ \<Rightarrow> False) \<and>
               exit_status (0 :: int) (main_loop pipe_params ((full_run ! 2) # [] @ full_rest) (pipe_full_state 2)) = Some EXIT_SUCCESS"
    by blast
  from h1 h2 h3 a r1 r2 b x1 x2 x3 c more g1 g2 q1 q2 y1 y2 y3 y4 d show ?thesis by blast
qed

subsection \<open>Leaving the loop\<close>

text \<open>
  Claim C7. Let \<open>s\<close> be the state at the head of the loop after any number of iterations
  of any run, and \<open>s'\<close> the state in which the test of line 904 is evaluated at the end of
  the next iteration. Then the test succeeds, so that the loop is left, exactly when every
  input slot and every output slot is free and \<open>eof\<close> is set; and the two counters it
  reads are the numbers of slots that are not free.
\<close>

theorem loop_exit_condition:
  assumes "main_loop p es (init_state p ifd ofd) = Blocked s" and "scan p e s = Inr s'"
  shows "(all_done s' \<longleftrightarrow> all_free (ique s') \<and> all_free (oque s') \<and> eof s') \<and>
         iqsize s' = int (busy (ique s')) \<and> oqsize s' = int (busy (oque s')) \<and>
         main_loop p (e # es') s = (if all_done s' then Left s' else main_loop p es' s')"
proof -
  from counted_main_loop [of p es ifd ofd] assms(1) have "counted p s" by simp
  from counted_scan [OF this, of e] assms(2) have c: "counted p s'" by simp
  then show ?thesis
    using busy_zero [of "ique s'"] busy_zero [of "oque s'"] assms(2)
    by (simp add: counted_def all_done_def)
qed

theorem loop_exit_condition_witness:
  "main_loop pipe_params (take 5 pipe_run) (init_state pipe_params fd_in fd_out) = Blocked (pipe_state 5) \<and>
   scan pipe_params (pipe_run ! 5) (pipe_state 5) = Inr (pipe_state 6) \<and>
   (all_done (pipe_state 6) \<longleftrightarrow>
      all_free (ique (pipe_state 6)) \<and> all_free (oque (pipe_state 6)) \<and> eof (pipe_state 6)) \<and>
   iqsize (pipe_state 6) = int (busy (ique (pipe_state 6))) \<and>
   oqsize (pipe_state 6) = int (busy (oque (pipe_state 6))) \<and>
   all_done (pipe_state 6) \<and>
   main_loop pipe_params (take 3 pipe_run) (init_state pipe_params fd_in fd_out) = Blocked (pipe_state 3) \<and>
   scan pipe_params (pipe_run ! 3) (pipe_state 3) = Inr (pipe_state 4) \<and>
   (all_done (pipe_state 4) \<longleftrightarrow>
      all_free (ique (pipe_state 4)) \<and> all_free (oque (pipe_state 4)) \<and> eof (pipe_state 4)) \<and>
   iqsize (pipe_state 4) = int (busy (ique (pipe_state 4))) \<and>
   \<not> all_done (pipe_state 4)"
proof -
  have a: "main_loop pipe_params (take 5 pipe_run) (init_state pipe_params fd_in fd_out) = Blocked (pipe_state 5)"
    by code_simp
  have b: "scan pipe_params (pipe_run ! 5) (pipe_state 5) = Inr (pipe_state 6)" by code_simp
  have c: "all_done (pipe_state 6)" by code_simp
  have a': "main_loop pipe_params (take 3 pipe_run) (init_state pipe_params fd_in fd_out) = Blocked (pipe_state 3)"
    by code_simp
  have b': "scan pipe_params (pipe_run ! 3) (pipe_state 3) = Inr (pipe_state 4)" by code_simp
  have c': "\<not> all_done (pipe_state 4)" by code_simp
  from loop_exit_condition [OF a b, of "[]"] loop_exit_condition [OF a' b', of "[]"]
  show ?thesis using a b c a' b' c' by blast
qed

subsection \<open>The block-size option\<close>

text \<open>
  Claim C8 asks that a block size be accepted exactly when it is a multiple of 512 between
  512 and 16 * 2^20. The option code tests the remainder by 512 and the upper bound only:
  the arguments \<^verbatim>\<open>0\<close>, \<^verbatim>\<open>k\<close> (no digits) and \<^verbatim>\<open>-512\<close> are accepted and give the block
  sizes 0, 0 and -512, where the sibling option \<^verbatim>\<open>-q\<close> does test its lower bound
  (line 247). In range, the code does what the claim says: 512 and 16M are accepted, 511 and
  17M end with \<^verbatim>\<open>EXIT_USAGE\<close>.
\<close>

theorem blksize_lower_bound_missing:
  "parse_blksize ''0'' = Inr 0 \<and> parse_blksize ''k'' = Inr 0 \<and>
   parse_blksize ''-512'' = Inr (- 512) \<and>
   parse_blksize ''512'' = Inr 512 \<and> parse_blksize ''16M'' = Inr (16 * 2 ^ 20) \<and>
   parse_blksize ''511'' = Inl EXIT_USAGE \<and> parse_blksize ''17M'' = Inl EXIT_USAGE"
  by code_simp

subsection \<open>Handing a buffer to an output slot\<close>

text \<open>What \<open>handoff\<close> does to the donor: its control block loses the pointer, the slot
  itself keeps it.\<close>

lemma handoff_donor:
  assumes "handoff p e i j s = Inr s'" and "aio_writes s' \<noteq> aio_writes s" and "j < length (ique s)"
    and "i < length (oque s)"
  shows "status (ique s' ! j) = QUEITEM_FREE \<and> buffer (oque s' ! i) = buffer (ique s ! j) \<and>
         buffer (ique s' ! j) = buffer (ique s ! j) \<and> aio_buf (aiodata (ique s' ! j)) = NULL"
  using assms by (auto simp add: handoff_def Let_def split: if_splits)

text \<open>
  Claim C9 asks that the input slot's own buffer pointer be null in the step that gives its
  buffer to an output slot. In the second iteration of the pipe-to-pipe run, input slot 0
  is ready after the pass over the input queue and is matched with output slot 0: after
  the hand-over the output slot holds the buffer and the input slot is free, but its
  \<^verbatim>\<open>buffer\<close> field still holds the same address. What line 871 clears is the copy of
  the pointer in the slot's control block (\<^verbatim>\<open>aio_buf\<close>). The two places that free a buffer
  (lines 679-681 and 811-813) do clear the \<^verbatim>\<open>buffer\<close> field.
\<close>

theorem handoff_keeps_donor_pointer:
  "(case input_pass pipe_params (pipe_run ! 1) (pipe_state 1) of
      Inl x \<Rightarrow> False
    | Inr s \<Rightarrow>
        status (ique s ! 0) = QUEITEM_READY \<and> buffer (ique s ! 0) = 4096 \<and>
        (case handoff pipe_params (pipe_run ! 1) 0 0 s of
           Inl x \<Rightarrow> False
         | Inr s' \<Rightarrow>
             status (oque s' ! 0) = QUEITEM_INPROGRESS \<and> buffer (oque s' ! 0) = 4096 \<and>
             status (ique s' ! 0) = QUEITEM_FREE \<and> buffer (ique s' ! 0) = 4096 \<and>
             buffer (ique s' ! 0) \<noteq> NULL \<and> aio_buf (aiodata (ique s' ! 0)) = NULL))"
  by code_simp

subsection \<open>Seekability of the output\<close>

text \<open>
  Claim C10 asks that the output be classified by its own file type, a name that does not
  exist yet being non-seekable whatever the input is. When \<^verbatim>\<open>stat\<close> fails with
  \<^verbatim>\<open>ENOENT\<close> on the output name, the test of line 388 reads the buffer that the
  \<^verbatim>\<open>stat\<close> call on the input filled: the same new output name is seekable (with the
  full queue size) when the input is a regular file, and non-seekable when the input is a
  FIFO. Without an input file the buffer was never written, and the classification follows
  whatever it holds.
\<close>

theorem output_class_follows_input:
  "startup stat_of 0 (Some ''disk.img'') (Some ''new.img'') 512 8 =
     Inr \<lparr>blksize = 512, imaxqsize = 8, omaxqsize = 8, iseekable = True, oseekable = True\<rparr> \<and>
   startup stat_of 0 (Some ''fifo'') (Some ''new.img'') 512 8 =
     Inr \<lparr>blksize = 512, imaxqsize = 1, omaxqsize = 1, iseekable = False, oseekable = False\<rparr> \<and>
   startup stat_of 0x81A4 None (Some ''new.img'') 512 8 =
     Inr \<lparr>blksize = 512, imaxqsize = 1, omaxqsize = 8, iseekable = False, oseekable = True\<rparr> \<and>
   startup stat_of 0 None (Some ''new.img'') 512 8 =
     Inr \<lparr>blksize = 512, imaxqsize = 1, omaxqsize = 1, iseekable = False, oseekable = False\<rparr>"
  by code_simp

end
